theory Spec2Isabelle
  imports Main
begin

section \<open>JavaScript strings\<close>

text \<open>
  A JavaScript string is a sequence of 16-bit code units. The code units \<open>0..255\<close>
  (Latin-1) are carried by \<^typ>\<open>char\<close>; \<open>Wide n\<close> is the code unit \<open>256 + n\<close>.
  The parser of \<open>src/parser.ts\<close> rejects every token with a code unit outside Latin-1, so
  the two cases have to be told apart.
\<close>

datatype jschar = Latin char | Wide nat

type_synonym jsstring = "jschar list"

definition js :: "string \<Rightarrow> jsstring" where
  "js s = map Latin s"

text \<open>The class \<open>\s\<close> of JavaScript regular expressions, which is also what \<open>trim()\<close> strips.\<close>

fun isWhitespace :: "jschar \<Rightarrow> bool" where
  "isWhitespace (Latin b) =
     (b = CHR 0x09 \<or> b = CHR 0x0A \<or> b = CHR 0x0B \<or> b = CHR 0x0C \<or> b = CHR 0x0D \<or>
      b = CHR 0x20 \<or> b = CHR 0xA0)"
| "isWhitespace (Wide n) =
     (n + 256 = 0x1680 \<or> (0x2000 \<le> n + 256 \<and> n + 256 \<le> 0x200A) \<or> n + 256 = 0x2028 \<or>
      n + 256 = 0x2029 \<or> n + 256 = 0x202F \<or> n + 256 = 0x205F \<or> n + 256 = 0x3000 \<or>
      n + 256 = 0xFEFF)"

text \<open>Line terminators: the characters that \<open>.\<close> does not match in a regular expression.\<close>

fun isLineTerminator :: "jschar \<Rightarrow> bool" where
  "isLineTerminator (Latin b) = (b = CHR 0x0A \<or> b = CHR 0x0D)"
| "isLineTerminator (Wide n) = (n + 256 = 0x2028 \<or> n + 256 = 0x2029)"

text \<open>
  \<open>String.prototype.toLowerCase\<close> on Latin-1: \<open>A-Z\<close> and \<open>U+00C0..U+00DE\<close> without
  \<open>U+00D7\<close> move up by 32. The parser of \<open>src/parser.ts\<close> calls it on Latin-1 strings only;
  code units beyond Latin-1 are left as they are here.
\<close>

definition isUpperLatin :: "char \<Rightarrow> bool" where
  "isUpperLatin b =
     (let n = (of_char b :: nat)
      in (65 \<le> n \<and> n \<le> 90) \<or> (192 \<le> n \<and> n \<le> 222 \<and> n \<noteq> 215))"

text \<open>Adding 32 to a code unit of these two ranges is setting its bit 5.\<close>

definition lowerLatin :: "char \<Rightarrow> char" where
  "lowerLatin b =
     (if isUpperLatin b
      then Char (digit0 b) (digit1 b) (digit2 b) (digit3 b) (digit4 b) True (digit6 b) (digit7 b)
      else b)"

fun lowerChar :: "jschar \<Rightarrow> jschar" where
  "lowerChar (Latin b) = Latin (lowerLatin b)"
| "lowerChar (Wide n) = Wide n"

definition toLowerCase :: "jsstring \<Rightarrow> jsstring" where
  "toLowerCase s = map lowerChar s"

definition startsWith :: "jsstring \<Rightarrow> jsstring \<Rightarrow> bool" where
  "startsWith s p = (take (length p) s = p)"

definition endsWith :: "jsstring \<Rightarrow> jsstring \<Rightarrow> bool" where
  "endsWith s p = (length p \<le> length s \<and> drop (length s - length p) s = p)"


section \<open>Findings (\<open>csp.Finding\<close>)\<close>

datatype Severity =
  HIGH | SYNTAX | MEDIUM | HIGH_MAYBE | STRICT_CSP | MEDIUM_MAYBE | INFO | NONE

text \<open>The numbers of the enum \<open>csp.Finding.Severity\<close>.\<close>

fun severityValue :: "Severity \<Rightarrow> nat" where
  "severityValue HIGH = 10"
| "severityValue SYNTAX = 20"
| "severityValue MEDIUM = 30"
| "severityValue HIGH_MAYBE = 40"
| "severityValue STRICT_CSP = 45"
| "severityValue MEDIUM_MAYBE = 50"
| "severityValue INFO = 60"
| "severityValue NONE = 100"

datatype FindingType =
  MISSING_SEMICOLON | UNKNOWN_DIRECTIVE | INVALID_KEYWORD
| MISSING_DIRECTIVES | SCRIPT_UNSAFE_INLINE | SCRIPT_UNSAFE_EVAL | PLAIN_URL_SCHEMES
| PLAIN_WILDCARD | SCRIPT_WHITELIST_BYPASS | OBJECT_WHITELIST_BYPASS | NONCE_LENGTH
| IP_SOURCE | DEPRECATED_DIRECTIVE | SRC_HTTP
| STRICT_DYNAMIC | STRICT_DYNAMIC_NOT_STANDALONE | NONCE_HASH | UNSAFE_INLINE_FALLBACK
| WHITELIST_FALLBACK | IGNORED

record Finding =
  fType :: FindingType
  fDescription :: jsstring
  fSeverity :: Severity
  fDirective :: jsstring
  fValue :: "jsstring option"

definition mkFinding ::
  "FindingType \<Rightarrow> jsstring \<Rightarrow> Severity \<Rightarrow> jsstring \<Rightarrow> jsstring option \<Rightarrow> Finding" where
  "mkFinding t d s dir v =
     \<lparr>fType = t, fDescription = d, fSeverity = s, fDirective = dir, fValue = v\<rparr>"

text \<open>
  \<open>csp.Finding.getHighestSeverity\<close>: the reducer keeps \<open>prev\<close> when \<open>prev < cur\<close> on the
  enum numbers, and the reduction starts from \<open>NONE\<close>.
\<close>

definition minSeverity :: "Severity \<Rightarrow> Severity \<Rightarrow> Severity" where
  "minSeverity prev cur = (if severityValue prev < severityValue cur then prev else cur)"

definition getHighestSeverity :: "Finding list \<Rightarrow> Severity" where
  "getHighestSeverity findings =
     (if findings = [] then NONE
      else foldl minSeverity NONE (map fSeverity findings))"


section \<open>String operations of the parser\<close>

text \<open>\<open>s.trim()\<close>.\<close>

definition trim :: "jsstring \<Rightarrow> jsstring" where
  "trim s = rev (dropWhile isWhitespace (rev (dropWhile isWhitespace s)))"

text \<open>
  \<open>s.split(sep)\<close> for a non-empty separator: the string is cut at the leftmost occurrences
  of \<open>sep\<close>, which do not overlap. (With the empty separator JavaScript cuts between all
  code units; the program never does that.)
\<close>

definition consFirst :: "jschar \<Rightarrow> jsstring list \<Rightarrow> jsstring list" where
  "consFirst c ts = (case ts of [] \<Rightarrow> [[c]] | t # rest \<Rightarrow> (c # t) # rest)"

function split :: "jsstring \<Rightarrow> jsstring \<Rightarrow> jsstring list" where
  "split s sep =
     (if sep = [] then map (\<lambda>c. [c]) s
      else if s = [] then [[]]
      else if startsWith s sep then [] # split (drop (length sep) s) sep
      else consFirst (hd s) (split (tl s) sep))"
  by pat_completeness auto
termination
  by (relation "measure (\<lambda>(s, sep). length s)") auto

text \<open>
  \<open>s.match(/\S+/g)\<close>: the maximal runs of non-whitespace, from left to right. JavaScript
  returns \<open>null\<close> when there is none; the empty list stands for it.
\<close>

function matchNonSpace :: "jsstring \<Rightarrow> jsstring list" where
  "matchNonSpace [] = []"
| "matchNonSpace (c # cs) =
     (if isWhitespace c then matchNonSpace cs
      else (c # takeWhile (\<lambda>x. \<not> isWhitespace x) cs)
           # matchNonSpace (dropWhile (\<lambda>x. \<not> isWhitespace x) cs))"
  by pat_completeness auto
termination
  by (relation "measure length") (auto simp: le_imp_less_Suc length_dropWhile_le)

text \<open>The test \<open>/^[\x00-\xFF]*$/\<close>.\<close>

fun isLatin :: "jschar \<Rightarrow> bool" where
  "isLatin (Latin b) = True"
| "isLatin (Wide n) = False"

definition isLatin1 :: "jsstring \<Rightarrow> bool" where
  "isLatin1 s = list_all isLatin s"


section \<open>Policy vocabulary (\<open>csp.js\<close>)\<close>

definition quoted :: "string \<Rightarrow> jsstring" where
  "quoted s = Latin (CHR 0x27) # js s @ [Latin (CHR 0x27)]"

definition Keyword_SELF :: jsstring where "Keyword_SELF = quoted ''self''"
definition Keyword_NONE :: jsstring where "Keyword_NONE = quoted ''none''"
definition Keyword_UNSAFE_INLINE :: jsstring where "Keyword_UNSAFE_INLINE = quoted ''unsafe-inline''"
definition Keyword_UNSAFE_EVAL :: jsstring where "Keyword_UNSAFE_EVAL = quoted ''unsafe-eval''"
definition Keyword_STRICT_DYNAMIC :: jsstring where "Keyword_STRICT_DYNAMIC = quoted ''strict-dynamic''"

definition Keyword :: "jsstring list" where
  "Keyword = [Keyword_SELF, Keyword_NONE, Keyword_UNSAFE_INLINE, Keyword_UNSAFE_EVAL,
     Keyword_STRICT_DYNAMIC, quoted ''unsafe-hashed-attributes'', quoted ''unsafe-hashes'',
     quoted ''report-sample'']"

definition isKeyword :: "jsstring \<Rightarrow> bool" where
  "isKeyword keyword = (keyword \<in> set Keyword)"

definition DEFAULT_SRC :: jsstring where "DEFAULT_SRC = js ''default-src''"
definition SCRIPT_SRC :: jsstring where "SCRIPT_SRC = js ''script-src''"
definition OBJECT_SRC :: jsstring where "OBJECT_SRC = js ''object-src''"
definition BASE_URI :: jsstring where "BASE_URI = js ''base-uri''"
definition REPORT_TO :: jsstring where "REPORT_TO = js ''report-to''"
definition WORKER_SRC :: jsstring where "WORKER_SRC = js ''worker-src''"
definition MANIFEST_SRC :: jsstring where "MANIFEST_SRC = js ''manifest-src''"
definition TRUSTED_TYPES :: jsstring where "TRUSTED_TYPES = js ''trusted-types''"
definition REQUIRE_TRUSTED_TYPES_FOR :: jsstring where
  "REQUIRE_TRUSTED_TYPES_FOR = js ''require-trusted-types-for''"

definition FETCH_DIRECTIVES :: "jsstring list" where
  "FETCH_DIRECTIVES =
     [js ''child-src'', js ''connect-src'', DEFAULT_SRC, js ''font-src'', js ''frame-src'',
      js ''img-src'', MANIFEST_SRC, js ''media-src'', OBJECT_SRC, SCRIPT_SRC,
      js ''script-src-attr'', js ''script-src-elem'', js ''style-src'', js ''style-src-attr'',
      js ''style-src-elem'', WORKER_SRC]"

text \<open>\<open>csp.isUrlScheme\<close>: the pattern \<open>^[a-zA-Z][+a-zA-Z0-9.-]*:$\<close>.\<close>

fun isAsciiLetter :: "jschar \<Rightarrow> bool" where
  "isAsciiLetter (Latin b) =
     (let n = (of_char b :: nat) in (65 \<le> n \<and> n \<le> 90) \<or> (97 \<le> n \<and> n \<le> 122))"
| "isAsciiLetter (Wide n) = False"

fun isSchemeChar :: "jschar \<Rightarrow> bool" where
  "isSchemeChar (Latin b) =
     (let n = (of_char b :: nat)
      in (65 \<le> n \<and> n \<le> 90) \<or> (97 \<le> n \<and> n \<le> 122) \<or> (48 \<le> n \<and> n \<le> 57) \<or>
         b = CHR ''+'' \<or> b = CHR ''.'' \<or> b = CHR ''-'')"
| "isSchemeChar (Wide n) = False"

definition isUrlScheme :: "jsstring \<Rightarrow> bool" where
  "isUrlScheme urlScheme =
     (case urlScheme of
        [] \<Rightarrow> False
      | c # cs \<Rightarrow> isAsciiLetter c \<and> cs \<noteq> [] \<and> last cs = Latin CHR '':'' \<and>
                 list_all isSchemeChar (butlast cs))"

text \<open>
  \<open>csp.isNonce\<close> and \<open>csp.isHash\<close> without \<open>opt_strict\<close>: the patterns
  \<open>^'nonce-(.+)'$\<close> and \<open>^'(sha256|sha384|sha512)-(.+)'$\<close>. The group \<open>(.+)\<close> is a
  non-empty run without line terminators, and the last code unit is the closing quote.
\<close>

definition matchesQuotedPrefix :: "jsstring \<Rightarrow> jsstring \<Rightarrow> bool" where
  "matchesQuotedPrefix p s =
     (startsWith s p \<and> length p + 2 \<le> length s \<and> last s = Latin (CHR 0x27) \<and>
      list_all (\<lambda>c. \<not> isLineTerminator c) (butlast (drop (length p) s)))"

definition isNonce :: "jsstring \<Rightarrow> bool" where
  "isNonce nonce = matchesQuotedPrefix (Latin (CHR 0x27) # js ''nonce-'') nonce"

definition isHash :: "jsstring \<Rightarrow> bool" where
  "isHash hash =
     (matchesQuotedPrefix (Latin (CHR 0x27) # js ''sha256-'') hash \<or>
      matchesQuotedPrefix (Latin (CHR 0x27) # js ''sha384-'') hash \<or>
      matchesQuotedPrefix (Latin (CHR 0x27) # js ''sha512-'') hash)"


section \<open>Objects keyed by directive names\<close>

text \<open>
  A policy is a JavaScript object whose own properties are the directives. The list holds
  the own properties in the order in which \<open>Object.keys\<close> and \<open>for\<dots>in\<close> enumerate them:
  array indices (canonical decimal numerals below \<open>2^32 - 1\<close>) first, in ascending
  numeric order, then the other names in the order of their creation.
\<close>

type_synonym 'v jsobject = "(jsstring \<times> 'v) list"

fun digitValue :: "jschar \<Rightarrow> int option" where
  "digitValue (Latin b) =
     (let n = (of_char b :: int) in if 48 \<le> n \<and> n \<le> 57 then Some (n - 48) else None)"
| "digitValue (Wide n) = None"

fun decimalValue :: "int \<Rightarrow> jsstring \<Rightarrow> int option" where
  "decimalValue acc [] = Some acc"
| "decimalValue acc (c # cs) =
     (case digitValue c of None \<Rightarrow> None | Some d \<Rightarrow> decimalValue (10 * acc + d) cs)"

definition arrayIndex :: "jsstring \<Rightarrow> int option" where
  "arrayIndex k =
     (if k = [] \<or> (hd k = Latin CHR ''0'' \<and> length k \<noteq> 1) then None
      else case decimalValue 0 k of
             None \<Rightarrow> None
           | Some i \<Rightarrow> if i < 4294967295 then Some i else None)"

definition objectKeys :: "'v jsobject \<Rightarrow> jsstring list" where
  "objectKeys obj = map fst obj"

definition hasOwnProperty :: "'v jsobject \<Rightarrow> jsstring \<Rightarrow> bool" where
  "hasOwnProperty obj k = (k \<in> set (objectKeys obj))"

text \<open>
  The operator \<open>in\<close> also finds the properties that an object inherits. An object literal
  \<open>{}\<close> and an instance of \<open>csp.Csp\<close> inherit the properties of \<open>Object.prototype\<close>
  (\<open>csp.Csp.prototype\<close> adds only \<open>constructor\<close>, which is among them).
\<close>

definition objectPrototypeKeys :: "jsstring list" where
  "objectPrototypeKeys =
     [js ''constructor'', js ''__defineGetter__'', js ''__defineSetter__'',
      js ''hasOwnProperty'', js ''__lookupGetter__'', js ''__lookupSetter__'',
      js ''isPrototypeOf'', js ''propertyIsEnumerable'', js ''toString'', js ''valueOf'',
      js ''__proto__'', js ''toLocaleString'']"

definition inObject :: "jsstring \<Rightarrow> 'v jsobject \<Rightarrow> bool" where
  "inObject k obj = (hasOwnProperty obj k \<or> k \<in> set objectPrototypeKeys)"

text \<open>
  \<open>obj[k]\<close> for an own property, \<open>None\<close> standing for \<open>undefined\<close>. Every read of the
  modelled functions uses a name that \<open>Object.prototype\<close> does not have.
\<close>

definition getProp :: "'v jsobject \<Rightarrow> jsstring \<Rightarrow> 'v option" where
  "getProp obj k = map_of obj k"

text \<open>
  \<open>obj[k] = v\<close>. A new array index goes to its numeric place (before the first property
  that is not an array index or is a greater one), any other new name to the end; an
  existing property keeps its place.
\<close>

fun insertIndexed :: "int \<Rightarrow> jsstring \<Rightarrow> 'v \<Rightarrow> 'v jsobject \<Rightarrow> 'v jsobject" where
  "insertIndexed i k v [] = [(k, v)]"
| "insertIndexed i k v ((k', v') # rest) =
     (case arrayIndex k' of
        Some j \<Rightarrow> if j \<le> i then (k', v') # insertIndexed i k v rest
                  else (k, v) # (k', v') # rest
      | None \<Rightarrow> (k, v) # (k', v') # rest)"

definition setProp :: "'v jsobject \<Rightarrow> jsstring \<Rightarrow> 'v \<Rightarrow> 'v jsobject" where
  "setProp obj k v =
     (if hasOwnProperty obj k then map (\<lambda>(k', v'). if k' = k then (k', v) else (k', v')) obj
      else case arrayIndex k of
             Some i \<Rightarrow> insertIndexed i k v obj
           | None \<Rightarrow> obj @ [(k, v)])"

text \<open>\<open>delete obj[k]\<close> and \<open>goog.object.remove(obj, k)\<close>.\<close>

definition deleteProp :: "'v jsobject \<Rightarrow> jsstring \<Rightarrow> 'v jsobject" where
  "deleteProp obj k = filter (\<lambda>(k', v'). k' \<noteq> k) obj"

type_synonym policy = "(jsstring list) jsobject"


section \<open>The parser (\<open>src/parser.ts\<close>)\<close>

definition normalizeDirectiveValue :: "jsstring \<Rightarrow> jsstring" where
  "normalizeDirectiveValue directiveValue =
     (let directiveValue = trim directiveValue;
          directiveValueLower = toLowerCase directiveValue
      in if isKeyword directiveValueLower \<or> isUrlScheme directiveValue
         then directiveValueLower else directiveValue)"

text \<open>
  The loop over \<open>directiveParts[j]\<close> from \<open>j = 1\<close>: it stops at the end of the array or at
  an empty (falsy) part, and pushes each normalized value that is not yet included.
\<close>

fun collectValues :: "jsstring list \<Rightarrow> jsstring list \<Rightarrow> jsstring list" where
  "collectValues directiveValues [] = directiveValues"
| "collectValues directiveValues (part # parts) =
     (if part = [] then directiveValues
      else let directiveValue = normalizeDirectiveValue part
           in collectValues
                (if directiveValue \<in> set directiveValues then directiveValues
                 else directiveValues @ [directiveValue])
                parts)"

text \<open>The loop over the directive tokens, \<open>retCspDirectives\<close> being the object under construction.\<close>

fun parseTokens :: "policy \<Rightarrow> jsstring list \<Rightarrow> policy" where
  "parseTokens retCspDirectives [] = retCspDirectives"
| "parseTokens retCspDirectives (tok # directiveTokens) =
     (let directiveToken = trim tok
      in if directiveToken = [] \<or> \<not> isLatin1 directiveToken
         then parseTokens retCspDirectives directiveTokens
         else let directiveParts = matchNonSpace directiveToken
              in if directiveParts = [] then parseTokens retCspDirectives directiveTokens
                 else let directiveName = toLowerCase (hd directiveParts)
                      in if inObject directiveName retCspDirectives
                         then parseTokens retCspDirectives directiveTokens
                         else parseTokens
                                (setProp retCspDirectives directiveName
                                   (collectValues [] (tl directiveParts)))
                                directiveTokens)"

text \<open>
  The three things the loop computes from a token: whether it is processed at all, its
  directive name, and its directive values.
\<close>

definition isDirectiveToken :: "jsstring \<Rightarrow> bool" where
  "isDirectiveToken tok =
     (trim tok \<noteq> [] \<and> isLatin1 (trim tok) \<and> matchNonSpace (trim tok) \<noteq> [])"

definition tokenName :: "jsstring \<Rightarrow> jsstring" where
  "tokenName tok = toLowerCase (hd (matchNonSpace (trim tok)))"

definition tokenValues :: "jsstring \<Rightarrow> jsstring list" where
  "tokenValues tok = collectValues [] (tl (matchNonSpace (trim tok)))"

definition parseCsp :: "jsstring \<Rightarrow> policy" where
  "parseCsp unparsedCsp = parseTokens [] (split unparsedCsp (js '';''))"

text \<open>\<open>CspParser.parse\<close>: one policy for each piece between the separators \<open>', '\<close>.\<close>

definition parse :: "jsstring \<Rightarrow> policy list" where
  "parse unparsedCsp = map parseCsp (split unparsedCsp (js '', ''))"


text \<open>
  The older parser \<open>csp.CspParser.prototype.parse\<close> (\<open>parser.js\<close>) reads one policy and
  has no test for empty or non-Latin-1 tokens: a token without any non-whitespace is
  skipped because \<open>match\<close> returns \<open>null\<close>; \<open>goog.array.insert\<close> adds a value that the
  array does not contain yet.
\<close>

fun parseTokens_js :: "policy \<Rightarrow> jsstring list \<Rightarrow> policy" where
  "parseTokens_js csp [] = csp"
| "parseTokens_js csp (tok # directiveTokens) =
     (let directiveToken = trim tok;
          directiveParts = matchNonSpace directiveToken
      in if directiveParts = [] then parseTokens_js csp directiveTokens
         else let directiveName = toLowerCase (hd directiveParts)
              in if inObject directiveName csp
                 then parseTokens_js csp directiveTokens
                 else parseTokens_js
                        (setProp csp directiveName (collectValues [] (tl directiveParts)))
                        directiveTokens)"

definition parse_js :: "jsstring \<Rightarrow> policy" where
  "parse_js unparsedCsp = parseTokens_js [] (split unparsedCsp (js '';''))"


section \<open>Serialisation (\<open>csp.Csp.convertToString\<close>)\<close>

text \<open>
  The inner loop \<open>for (var value, i = 0; value = directiveValues[i]; i++)\<close>: it stops at the
  end of the array or at an empty (falsy) value, and appends a space and the value.
\<close>

fun appendValues :: "jsstring \<Rightarrow> jsstring list \<Rightarrow> jsstring" where
  "appendValues cspString [] = cspString"
| "appendValues cspString (v # directiveValues) =
     (if v = [] then cspString
      else appendValues (cspString @ js '' '' @ v) directiveValues)"

text \<open>One round of the loop over \<open>Object.keys(parsedCsp)\<close>, \<open>cspString\<close> being the buffer.\<close>

definition appendDirective :: "jsstring \<Rightarrow> jsstring \<times> jsstring list \<Rightarrow> jsstring" where
  "appendDirective cspString entry =
     appendValues (cspString @ fst entry) (snd entry) @ js ''; ''"

definition convertToString :: "policy \<Rightarrow> jsstring" where
  "convertToString parsedCsp = foldl appendDirective [] parsedCsp"

text \<open>\<open>Array.prototype.join\<close>.\<close>

fun joinStrings :: "jsstring \<Rightarrow> jsstring list \<Rightarrow> jsstring" where
  "joinStrings sep [] = []"
| "joinStrings sep [s] = s"
| "joinStrings sep (s # t # ss) = s @ sep @ joinStrings sep (t # ss)"

text \<open>
  Modelled from the spec: the string form of a whole collection. The sources have the
  string of one policy (\<open>convertToString\<close> above) and \<open>EnforcedCsps.convertToStrings\<close>,
  which returns the array of these strings; the helper \<open>mergeCspHeaders\<close> that the parser's
  constructor calls on an array of strings is not among them. The specification says that
  the policies are joined by \<open>', '\<close>. For a collection of one policy this is the string of
  that policy.
\<close>

definition convertCspsToString :: "policy list \<Rightarrow> jsstring" where
  "convertCspsToString csps = joinStrings (js '', '') (map convertToString csps)"


section \<open>Effective directives and policy predicates (\<open>csp.js\<close>)\<close>

text \<open>
  \<open>csp.Csp.getEffectiveDirective\<close> exists in two versions in \<open>csp.js\<close>. The older one
  (used by the older \<open>getEffectiveCsp\<close>) falls back to \<open>default-src\<close> for every absent
  name, the newer one for the fetch directives only.
\<close>

definition getEffectiveDirective_v1 :: "'v jsobject \<Rightarrow> jsstring \<Rightarrow> jsstring" where
  "getEffectiveDirective_v1 parsedCsp directive =
     (if inObject directive parsedCsp then directive else DEFAULT_SRC)"

definition getEffectiveDirective :: "'v jsobject \<Rightarrow> jsstring \<Rightarrow> jsstring" where
  "getEffectiveDirective parsedCsp directive =
     (if \<not> inObject directive parsedCsp \<and> directive \<in> set FETCH_DIRECTIVES
      then DEFAULT_SRC else directive)"

text \<open>\<open>parsedCsp[directiveName] || []\<close>.\<close>

definition valuesOrEmpty :: "policy \<Rightarrow> jsstring \<Rightarrow> jsstring list" where
  "valuesOrEmpty parsedCsp directiveName =
     (case getProp parsedCsp directiveName of Some vs \<Rightarrow> vs | None \<Rightarrow> [])"

definition policyHasScriptNonces :: "policy \<Rightarrow> bool" where
  "policyHasScriptNonces parsedCsp =
     (let directiveName = getEffectiveDirective parsedCsp SCRIPT_SRC;
          values = valuesOrEmpty parsedCsp directiveName
      in list_ex isNonce values)"

definition policyHasScriptHashes :: "policy \<Rightarrow> bool" where
  "policyHasScriptHashes parsedCsp =
     (let directiveName = getEffectiveDirective parsedCsp SCRIPT_SRC;
          values = valuesOrEmpty parsedCsp directiveName
      in list_ex isHash values)"

definition policyHasStrictDynamic :: "policy \<Rightarrow> bool" where
  "policyHasStrictDynamic parsedCsp =
     (let directiveName = getEffectiveDirective parsedCsp SCRIPT_SRC;
          values = valuesOrEmpty parsedCsp directiveName
      in Keyword_STRICT_DYNAMIC \<in> set values)"


section \<open>Wildcard URL matching (\<open>csp.utils\<close>)\<close>

text \<open>
  What the matcher reads of a \<open>goog.Uri\<close>: \<open>getDomain()\<close> and \<open>getPath()\<close>;
  \<open>hasPath()\<close> is \<open>!!this.path_\<close>.
\<close>

record Uri =
  getDomain :: jsstring
  getPath :: jsstring

definition Uri_hasPath :: "Uri \<Rightarrow> bool" where
  "Uri_hasPath u = (getPath u \<noteq> [])"

text \<open>\<open>host.replace(/^\*/i, '')\<close>: a leading asterisk is removed, the dot after it stays.\<close>

definition removeLeadingAsterisk :: "jsstring \<Rightarrow> jsstring" where
  "removeLeadingAsterisk host =
     (case host of [] \<Rightarrow> [] | c # cs \<Rightarrow> if c = Latin CHR ''*'' then cs else c # cs)"

fun matchLoop ::
  "jsstring \<Rightarrow> bool \<Rightarrow> jsstring \<Rightarrow> jsstring \<Rightarrow> bool \<Rightarrow> Uri list \<Rightarrow> Uri option" where
  "matchLoop host hostHasWildcard wildcardFreeHost path hasPath [] = None"
| "matchLoop host hostHasWildcard wildcardFreeHost path hasPath (url # listOfUrls) =
     (let domain = getDomain url
      in if \<not> endsWith domain wildcardFreeHost
         then matchLoop host hostHasWildcard wildcardFreeHost path hasPath listOfUrls
         else if \<not> hostHasWildcard \<and> host \<noteq> domain
         then matchLoop host hostHasWildcard wildcardFreeHost path hasPath listOfUrls
         else if hasPath
         then (if endsWith path (js ''/'')
               then (if \<not> startsWith (getPath url) path
                     then matchLoop host hostHasWildcard wildcardFreeHost path hasPath listOfUrls
                     else Some url)
               else (if getPath url \<noteq> path
                     then matchLoop host hostHasWildcard wildcardFreeHost path hasPath listOfUrls
                     else Some url))
         else Some url)"

definition matchWildcardUrls :: "Uri \<Rightarrow> Uri list \<Rightarrow> Uri option" where
  "matchWildcardUrls cspUrl listOfUrls =
     (let host = toLowerCase (getDomain cspUrl);
          hostHasWildcard = startsWith host (js ''*.'');
          wildcardFreeHost = removeLeadingAsterisk host;
          path = getPath cspUrl;
          hasPath = Uri_hasPath cspUrl
      in matchLoop host hostHasWildcard wildcardFreeHost path hasPath listOfUrls)"

text \<open>
  The condition of the specification (section 4.2) for one candidate, in the specification's
  words. Step 1: lowercase the pattern host and strip a leading \<open>*.\<close> if present,
  remembering whether the wildcard was present. Step 2: the candidate's domain ends with the
  wildcard-free host, and the pattern had the wildcard or the domains are equal (the
  pattern's domain being its lowercased host). Step 3: when the pattern has a path that ends
  in \<open>/\<close> the candidate's path starts with it, and it equals any other path of the pattern.
\<close>

definition stripWildcardPrefix :: "jsstring \<Rightarrow> jsstring" where
  "stripWildcardPrefix host = (if startsWith host (js ''*.'') then drop 2 host else host)"

definition specCandidateMatches :: "Uri \<Rightarrow> Uri \<Rightarrow> bool" where
  "specCandidateMatches cspUrl url =
     (let host = toLowerCase (getDomain cspUrl)
      in endsWith (getDomain url) (stripWildcardPrefix host) \<and>
         (startsWith host (js ''*.'') \<or> getDomain url = host) \<and>
         (Uri_hasPath cspUrl \<longrightarrow>
            (if endsWith (getPath cspUrl) (js ''/'')
             then startsWith (getPath url) (getPath cspUrl)
             else getPath url = getPath cspUrl)))"

text \<open>
  The same condition with one more requirement: for a pattern host with the wildcard, the
  wildcard-free host is preceded by a dot at the end of the candidate's domain.
\<close>

definition dotCandidateMatches :: "Uri \<Rightarrow> Uri \<Rightarrow> bool" where
  "dotCandidateMatches cspUrl url =
     (let host = toLowerCase (getDomain cspUrl)
      in specCandidateMatches cspUrl url \<and>
         (startsWith host (js ''*.'') \<longrightarrow>
            endsWith (getDomain url) (js ''.'' @ stripWildcardPrefix host)))"

text \<open>
  \<open>csp.utils.getSchemeFreeUrl\<close>: the first \<open>replace\<close> removes a prefix matching
  \<open>^\w[+\w.-]*:\/\/\<close>, the second a leading \<open>//\<close>. Neither \<open>:\<close> nor \<open>/\<close> belongs to the
  class \<open>[+\w.-]\<close>, so the first pattern matches exactly when the longest run of the class
  after the first code unit is followed by \<open>://\<close>.
\<close>

fun isWordChar :: "jschar \<Rightarrow> bool" where
  "isWordChar (Latin b) =
     (let n = (of_char b :: nat)
      in (65 \<le> n \<and> n \<le> 90) \<or> (97 \<le> n \<and> n \<le> 122) \<or> (48 \<le> n \<and> n \<le> 57) \<or> b = CHR ''_'')"
| "isWordChar (Wide n) = False"

definition isSchemeTailChar :: "jschar \<Rightarrow> bool" where
  "isSchemeTailChar c =
     (isWordChar c \<or> c = Latin CHR ''+'' \<or> c = Latin CHR ''.'' \<or> c = Latin CHR ''-'')"

definition getSchemeFreeUrl :: "jsstring \<Rightarrow> jsstring" where
  "getSchemeFreeUrl url =
     (let url = (case url of
                   [] \<Rightarrow> []
                 | c # cs \<Rightarrow>
                     if isWordChar c \<and> startsWith (dropWhile isSchemeTailChar cs) (js ''://'')
                     then drop 3 (dropWhile isSchemeTailChar cs) else c # cs)
      in if startsWith url (js ''//'') then drop 2 url else url)"


section \<open>Security checks (\<open>csp.securityChecks\<close>)\<close>

definition DIRECTIVES_CAUSING_XSS :: "jsstring list" where
  "DIRECTIVES_CAUSING_XSS = [SCRIPT_SRC, OBJECT_SRC, BASE_URI]"

text \<open>The loop of \<open>checkMissingDirectives\<close> over the directives that remain to be checked.\<close>

fun missingLoop :: "policy \<Rightarrow> Finding list \<Rightarrow> jsstring list \<Rightarrow> Finding list" where
  "missingLoop parsedCsp violations [] = violations"
| "missingLoop parsedCsp violations (directive # directivesCausingXss) =
     (if \<not> inObject directive parsedCsp
      then (if directive = OBJECT_SRC
            then missingLoop parsedCsp
                   (violations @ [mkFinding MISSING_DIRECTIVES
                      (js ''Missing object-src allows the injection of plugins which can execute JavaScript. Can you set it to 'none'?'')
                      HIGH directive None])
                   directivesCausingXss
            else if directive = BASE_URI
            then (if \<not> policyHasScriptNonces parsedCsp \<and>
                     \<not> (policyHasScriptHashes parsedCsp \<and> policyHasStrictDynamic parsedCsp)
                  then missingLoop parsedCsp violations directivesCausingXss
                  else missingLoop parsedCsp
                         (violations @ [mkFinding MISSING_DIRECTIVES
                            (js ''Missing base-uri allows the injection of base tags. They can be used to set the base URL for all relative (script) URLs to an attacker controlled domain. Can you set it to 'none' or 'self'?'')
                            HIGH directive None])
                         directivesCausingXss)
            else missingLoop parsedCsp
                   (violations @ [mkFinding MISSING_DIRECTIVES
                      (directive @ js '' directive is missing.'') HIGH directive None])
                   directivesCausingXss)
      else missingLoop parsedCsp violations directivesCausingXss)"

definition checkMissingDirectives :: "policy \<Rightarrow> Finding list" where
  "checkMissingDirectives parsedCsp =
     (if inObject DEFAULT_SRC parsedCsp
      then (let defaultSrcValues = valuesOrEmpty parsedCsp DEFAULT_SRC;
                violations =
                  (if \<not> inObject OBJECT_SRC parsedCsp \<and> Keyword_NONE \<notin> set defaultSrcValues
                   then [mkFinding MISSING_DIRECTIVES
                           (js ''Can you restrict object-src to 'none'?'') HIGH_MAYBE OBJECT_SRC None]
                   else [])
            in if inObject BASE_URI parsedCsp then violations
               else missingLoop parsedCsp violations [BASE_URI])
      else missingLoop parsedCsp [] DIRECTIVES_CAUSING_XSS)"

text \<open>
  \<open>checkScriptWhitelistBypass\<close>. The constructor of \<open>goog.Uri\<close> (Closure library) and the
  bypass tables \<open>csp.whitelistBypasses.angular.URLS\<close>, \<open>csp.whitelistBypasses.jsonp.URLS\<close>
  and \<open>csp.whitelistBypasses.jsonp.NEEDS_EVAL\<close> are parameters.
\<close>

record bypassTables =
  newUri :: "jsstring \<Rightarrow> Uri"
  angularURLS :: "Uri list"
  jsonpURLS :: "Uri list"
  NEEDS_EVAL :: "jsstring list"

definition isEmptyOrWhitespace :: "jsstring \<Rightarrow> bool" where
  "isEmptyOrWhitespace s = list_all isWhitespace s"

fun bypassLoop ::
  "bypassTables \<Rightarrow> jsstring \<Rightarrow> jsstring list \<Rightarrow> Finding list \<Rightarrow> jsstring list \<Rightarrow> Finding list" where
  "bypassLoop T effectiveScriptSrcDirective scriptSrcValues violations [] = violations"
| "bypassLoop T effectiveScriptSrcDirective scriptSrcValues violations (v # rest) =
     (if v = Keyword_SELF
      then bypassLoop T effectiveScriptSrcDirective scriptSrcValues
             (violations @ [mkFinding SCRIPT_WHITELIST_BYPASS
                (quoted ''self'' @ js '' can be problematic if you host JSONP, Angular or user uploaded files.'')
                MEDIUM_MAYBE effectiveScriptSrcDirective (Some v)])
             rest
      else if startsWith v [Latin (CHR 0x27)]
      then bypassLoop T effectiveScriptSrcDirective scriptSrcValues violations rest
      else if isUrlScheme v \<or> Latin CHR ''.'' \<notin> set v
      then bypassLoop T effectiveScriptSrcDirective scriptSrcValues violations rest
      else
        (let url = newUri T (js ''//'' @ getSchemeFreeUrl v);
             angularBypass = matchWildcardUrls url (angularURLS T);
             jsonpBypass = matchWildcardUrls url (jsonpURLS T);
             jsonpBypass =
               (case jsonpBypass of
                  None \<Rightarrow> None
                | Some b \<Rightarrow>
                    (let evalRequired = (getDomain b \<in> set (NEEDS_EVAL T));
                         evalPresent = (Keyword_UNSAFE_EVAL \<in> set scriptSrcValues)
                     in if evalRequired \<and> \<not> evalPresent then None else Some b))
         in if jsonpBypass \<noteq> None \<or> angularBypass \<noteq> None
            then
              (let (bypassDomain, bypassTxt) =
                     (case jsonpBypass of
                        None \<Rightarrow> ([], [])
                      | Some b \<Rightarrow> (getDomain b, js '' JSONP endpoints''));
                   (bypassDomain, bypassTxt) =
                     (case angularBypass of
                        None \<Rightarrow> (bypassDomain, bypassTxt)
                      | Some b \<Rightarrow>
                          (getDomain b,
                           bypassTxt @ (if isEmptyOrWhitespace bypassTxt then [] else js '' and'')
                             @ js '' Angular libraries''))
               in bypassLoop T effectiveScriptSrcDirective scriptSrcValues
                    (violations @ [mkFinding SCRIPT_WHITELIST_BYPASS
                       (bypassDomain @ js '' is known to host'' @ bypassTxt
                          @ js '' which allow to bypass this CSP.'')
                       HIGH effectiveScriptSrcDirective (Some v)])
                    rest)
            else bypassLoop T effectiveScriptSrcDirective scriptSrcValues
                   (violations @ [mkFinding SCRIPT_WHITELIST_BYPASS
                      (js ''No bypass found; make sure that this URL doesn't serve JSONP replies or Angular libraries.'')
                      MEDIUM_MAYBE effectiveScriptSrcDirective (Some v)])
                   rest))"

definition checkScriptWhitelistBypass :: "bypassTables \<Rightarrow> policy \<Rightarrow> Finding list" where
  "checkScriptWhitelistBypass T parsedCsp =
     (let effectiveScriptSrcDirective = getEffectiveDirective parsedCsp SCRIPT_SRC;
          scriptSrcValues = valuesOrEmpty parsedCsp effectiveScriptSrcDirective
      in if Keyword_NONE \<in> set scriptSrcValues then []
         else bypassLoop T effectiveScriptSrcDirective scriptSrcValues [] scriptSrcValues)"


section \<open>The store\<close>

text \<open>
  Policies and their value lists are mutable JavaScript objects and arrays. The store holds
  them by address, so that a copy and a second reference to the same array differ: an
  address is an index into \<open>arrays\<close> or \<open>objects\<close>, and allocation appends. A policy object
  maps each directive name to the address of its array of values.
\<close>

record heap =
  arrays :: "jsstring list list"
  objects :: "nat jsobject list"

definition emptyHeap :: heap where
  "emptyHeap = \<lparr>arrays = [], objects = []\<rparr>"

definition readArray :: "heap \<Rightarrow> nat \<Rightarrow> jsstring list" where
  "readArray h a = (if a < length (arrays h) then arrays h ! a else [])"

definition readObject :: "heap \<Rightarrow> nat \<Rightarrow> nat jsobject" where
  "readObject h p = (if p < length (objects h) then objects h ! p else [])"

definition writeArray :: "heap \<Rightarrow> nat \<Rightarrow> jsstring list \<Rightarrow> heap" where
  "writeArray h a xs = h\<lparr>arrays := (arrays h)[a := xs]\<rparr>"

definition writeObject :: "heap \<Rightarrow> nat \<Rightarrow> nat jsobject \<Rightarrow> heap" where
  "writeObject h p obj = h\<lparr>objects := (objects h)[p := obj]\<rparr>"

definition allocArray :: "heap \<Rightarrow> jsstring list \<Rightarrow> heap \<times> nat" where
  "allocArray h xs = (h\<lparr>arrays := arrays h @ [xs]\<rparr>, length (arrays h))"

definition allocObject :: "heap \<Rightarrow> heap \<times> nat" where
  "allocObject h = (h\<lparr>objects := objects h @ [[]]\<rparr>, length (objects h))"

text \<open>The policy at an address, read as a value: each directive with the content of its array.\<close>

definition loadCsp :: "heap \<Rightarrow> nat \<Rightarrow> policy" where
  "loadCsp h p = map (\<lambda>(k, a). (k, readArray h a)) (readObject h p)"

text \<open>A parsed policy laid out in the store: one fresh array for each directive.\<close>

definition storeCsp :: "heap \<Rightarrow> policy \<Rightarrow> heap \<times> nat" where
  "storeCsp h pol =
     (let n = length (arrays h)
      in (\<lparr>arrays = arrays h @ map snd pol,
           objects = objects h @ [zip (map fst pol) [n ..< n + length pol]]\<rparr>,
          length (objects h)))"

definition storeNext :: "heap \<times> nat list \<Rightarrow> policy \<Rightarrow> heap \<times> nat list" where
  "storeNext hps pol = (let (h, p) = storeCsp (fst hps) pol in (h, snd hps @ [p]))"

definition storeCsps :: "heap \<Rightarrow> policy list \<Rightarrow> heap \<times> nat list" where
  "storeCsps h pols = foldl storeNext (h, []) pols"

text \<open>
  \<open>goog.array.remove(arr, v)\<close> and \<open>arrayRemove(arr, v)\<close> of \<open>enforced_csps.ts\<close>: the first
  occurrence is spliced out of the array itself.
\<close>

definition arrayRemove :: "heap \<Rightarrow> nat \<Rightarrow> jsstring \<Rightarrow> heap" where
  "arrayRemove h arr v = writeArray h arr (remove1 v (readArray h arr))"

text \<open>\<open>goog.object.remove(obj, k)\<close> and \<open>delete obj[k]\<close>.\<close>

definition objectRemove :: "heap \<Rightarrow> nat \<Rightarrow> jsstring \<Rightarrow> heap" where
  "objectRemove h p k = writeObject h p (deleteProp (readObject h p) k)"

text \<open>
  \<open>csp.Csp.clone\<close>: a new object, and for each key of the source a new array with the same
  elements (\<open>goog.array.clone\<close>).
\<close>

definition cloneDirective :: "nat \<Rightarrow> nat \<Rightarrow> heap \<Rightarrow> jsstring \<Rightarrow> heap" where
  "cloneDirective parsedCsp clone h directive =
     (let elements = (case getProp (readObject h parsedCsp) directive of
                        Some arr \<Rightarrow> readArray h arr | None \<Rightarrow> []);
          (h, copy) = allocArray h elements
      in writeObject h clone (setProp (readObject h clone) directive copy))"

definition cloneDirectives :: "heap \<Rightarrow> nat \<Rightarrow> nat \<Rightarrow> jsstring list \<Rightarrow> heap" where
  "cloneDirectives h parsedCsp clone keys = foldl (cloneDirective parsedCsp clone) h keys"

definition clone :: "heap \<Rightarrow> nat \<Rightarrow> heap \<times> nat" where
  "clone h parsedCsp =
     (let (h, clone) = allocObject h
      in (cloneDirectives h parsedCsp clone (objectKeys (readObject h parsedCsp)), clone))"


section \<open>The effective policy of one policy (\<open>csp.Csp.getEffectiveCsp\<close>)\<close>

definition quote :: jschar where
  "quote = Latin (CHR 0x27)"

text \<open>
  The loops \<open>for (let value of values)\<close> run over the array of the parsed policy, while
  every write goes to \<open>arr\<close>, the array of the clone.
\<close>

fun removeNoncesAndHashes :: "heap \<Rightarrow> nat \<Rightarrow> jsstring list \<Rightarrow> heap" where
  "removeNoncesAndHashes h arr [] = h"
| "removeNoncesAndHashes h arr (v # values) =
     (if startsWith v (quote # js ''nonce-'') \<or> startsWith v (quote # js ''sha'')
      then removeNoncesAndHashes (arrayRemove h arr v) arr values
      else removeNoncesAndHashes h arr values)"

fun ignoreWhitelist ::
  "heap \<Rightarrow> nat \<Rightarrow> jsstring \<Rightarrow> Finding list \<Rightarrow> jsstring list \<Rightarrow> heap \<times> Finding list" where
  "ignoreWhitelist h arr directive findings [] = (h, findings)"
| "ignoreWhitelist h arr directive findings (v # values) =
     (if \<not> startsWith v [quote] \<or> v = Keyword_SELF \<or> v = Keyword_UNSAFE_INLINE
      then ignoreWhitelist (arrayRemove h arr v) arr directive
             (findings @ [mkFinding IGNORED
                (js ''Because of strict-dynamic this entry is ignored in CSP3 and above'')
                NONE directive (Some v)])
             values
      else ignoreWhitelist h arr directive findings values)"

definition unsafeInlineIgnored :: "jsstring \<Rightarrow> Finding" where
  "unsafeInlineIgnored directive =
     mkFinding IGNORED
       (js ''unsafe-inline is ignored if a nonce or a hash is present. (CSP2 and above)'')
       NONE directive (Some Keyword_UNSAFE_INLINE)"

text \<open>
  The two blocks that \<open>getEffectiveCsp\<close> and \<open>getEffectiveCsps\<close> share, for the parsed policy
  at \<open>parsedCsp\<close>, its clone at \<open>effectiveCsp\<close> and the directive name \<open>directive\<close>. The
  version is a JavaScript number; only its comparisons with 2 and 3 are used.
\<close>

definition applyNonceRules ::
  "heap \<Rightarrow> nat \<Rightarrow> jsstring \<Rightarrow> jsstring list \<Rightarrow> int \<Rightarrow> Finding list \<Rightarrow> heap \<times> Finding list" where
  "applyNonceRules h effectiveCsp directive values cspVersion findings =
     (case getProp (readObject h effectiveCsp) directive of
        None \<Rightarrow> (h, findings)
      | Some arr \<Rightarrow>
          if policyHasScriptNonces (loadCsp h effectiveCsp) \<or>
             policyHasScriptHashes (loadCsp h effectiveCsp)
          then (if cspVersion \<ge> 2
                then (if Keyword_UNSAFE_INLINE \<in> set values
                      then (arrayRemove h arr Keyword_UNSAFE_INLINE,
                            findings @ [unsafeInlineIgnored directive])
                      else (h, findings))
                else (removeNoncesAndHashes h arr values, findings))
          else (h, findings))"

definition applyStrictDynamicRules ::
  "heap \<Rightarrow> nat \<Rightarrow> nat \<Rightarrow> jsstring \<Rightarrow> jsstring list \<Rightarrow> int \<Rightarrow> Finding list
     \<Rightarrow> heap \<times> Finding list" where
  "applyStrictDynamicRules h parsedCsp effectiveCsp directive values cspVersion findings =
     (case getProp (readObject h effectiveCsp) directive of
        None \<Rightarrow> (h, findings)
      | Some arr \<Rightarrow>
          if policyHasStrictDynamic (loadCsp h parsedCsp)
          then (if cspVersion \<ge> 3
                then ignoreWhitelist h arr directive findings values
                else (arrayRemove h arr Keyword_STRICT_DYNAMIC, findings))
          else (h, findings))"

text \<open>\<open>csp.Csp.getEffectiveCsp\<close> (\<open>csp.js\<close>, the version that removes three directives).\<close>

definition getEffectiveCsp ::
  "heap \<Rightarrow> nat \<Rightarrow> int \<Rightarrow> Finding list \<Rightarrow> heap \<times> nat \<times> Finding list" where
  "getEffectiveCsp h parsedCsp cspVersion findings =
     (let (h, effectiveCsp) = clone h parsedCsp;
          directive = getEffectiveDirective_v1 (readObject h parsedCsp) SCRIPT_SRC;
          values = valuesOrEmpty (loadCsp h parsedCsp) directive;
          (h, findings) = applyNonceRules h effectiveCsp directive values cspVersion findings;
          (h, findings) =
            applyStrictDynamicRules h parsedCsp effectiveCsp directive values cspVersion findings;
          h = (if cspVersion < 3
               then (let h = objectRemove h effectiveCsp REPORT_TO;
                         h = objectRemove h effectiveCsp WORKER_SRC;
                         h = objectRemove h effectiveCsp MANIFEST_SRC
                     in h)
               else h)
      in (h, effectiveCsp, findings))"


section \<open>The effective policies of a collection (\<open>EnforcedCsps.getEffectiveCsps\<close>)\<close>

text \<open>
  A collection is the list of the addresses of its policies. The class \<open>Csp\<close> of the
  TypeScript sources is not among the files; its methods \<open>clone\<close>, \<open>policyHasScriptNonces\<close>,
  \<open>policyHasScriptHashes\<close> and \<open>policyHasStrictDynamic\<close> are taken from \<open>csp.js\<close>.
\<close>

text \<open>\<open>EnforcedCsps.clone\<close>: the clone of each policy is pushed to a new collection.\<close>

definition pushClone :: "heap \<times> nat list \<Rightarrow> nat \<Rightarrow> heap \<times> nat list" where
  "pushClone hcs csp = (let (h, c) = clone (fst hcs) csp in (h, snd hcs @ [c]))"

definition cloneAll :: "heap \<Rightarrow> nat list \<Rightarrow> heap \<times> nat list" where
  "cloneAll h this = foldl pushClone (h, []) this"

text \<open>\<open>EnforcedCsps.getEffectiveDirective\<close>: the name itself when some policy has it.\<close>

definition getEffectiveDirectiveOfCsps :: "heap \<Rightarrow> nat list \<Rightarrow> jsstring \<Rightarrow> jsstring" where
  "getEffectiveDirectiveOfCsps h csps directive =
     (if list_ex (\<lambda>csp. inObject directive (readObject h csp)) csps
      then directive else DEFAULT_SRC)"

text \<open>One round of the loop over \<open>index\<close>, for \<open>this[index]\<close> and \<open>effectiveCsps[index]\<close>.\<close>

definition effectiveStep ::
  "jsstring \<Rightarrow> int \<Rightarrow> heap \<times> Finding list \<Rightarrow> nat \<times> nat \<Rightarrow> heap \<times> Finding list" where
  "effectiveStep directive cspVersion hf pair =
     (let h = fst hf; findings = snd hf; this_index = fst pair; effectiveCsp = snd pair;
          values = valuesOrEmpty (loadCsp h this_index) directive;
          (h, findings) = applyNonceRules h effectiveCsp directive values cspVersion findings;
          (h, findings) =
            applyStrictDynamicRules h this_index effectiveCsp directive values cspVersion findings;
          h = (if cspVersion < 3
               then (let h = objectRemove h effectiveCsp REPORT_TO;
                         h = objectRemove h effectiveCsp WORKER_SRC;
                         h = objectRemove h effectiveCsp MANIFEST_SRC;
                         h = objectRemove h effectiveCsp TRUSTED_TYPES;
                         h = objectRemove h effectiveCsp REQUIRE_TRUSTED_TYPES_FOR
                     in h)
               else h)
      in (h, findings))"

definition effectiveLoop ::
  "heap \<Rightarrow> jsstring \<Rightarrow> int \<Rightarrow> Finding list \<Rightarrow> (nat \<times> nat) list \<Rightarrow> heap \<times> Finding list" where
  "effectiveLoop h directive cspVersion findings pairs =
     foldl (effectiveStep directive cspVersion) (h, findings) pairs"

definition getEffectiveCsps ::
  "heap \<Rightarrow> nat list \<Rightarrow> int \<Rightarrow> Finding list \<Rightarrow> heap \<times> nat list \<times> Finding list" where
  "getEffectiveCsps h this cspVersion findings =
     (let (h, effectiveCsps) = cloneAll h this;
          directive = getEffectiveDirectiveOfCsps h effectiveCsps SCRIPT_SRC;
          (h, findings) = effectiveLoop h directive cspVersion findings (zip this effectiveCsps)
      in (h, effectiveCsps, findings))"


section \<open>Highest severity\<close>

lemma severityValue_le_NONE: "severityValue s \<le> 100"
  by (cases s) simp_all

lemma severityValue_inj: "severityValue a = severityValue b \<Longrightarrow> a = b"
  by (cases a; cases b) simp_all

lemma foldl_minSeverity_value:
  "severityValue (foldl minSeverity a ss) = Min (insert (severityValue a) (severityValue ` set ss))"
proof (induction ss arbitrary: a)
  case Nil
  show ?case by simp
next
  case (Cons s ss)
  have "severityValue (minSeverity a s) = min (severityValue a) (severityValue s)"
    by (simp add: minSeverity_def min_def)
  then have "severityValue (foldl minSeverity a (s # ss))
      = Min (insert (min (severityValue a) (severityValue s)) (severityValue ` set ss))"
    using Cons.IH [of "minSeverity a s"] by simp
  also have "\<dots> = Min (insert (severityValue a) (severityValue ` set (s # ss)))"
  proof (cases "set ss = {}")
    case True
    then show ?thesis by (simp add: min_def)
  next
    case False
    then show ?thesis
      by (simp add: min.assoc)
  qed
  finally show ?case .
qed

text \<open>
  Claim C8. \<open>getHighestSeverity\<close> of the empty list is \<open>NONE\<close>; on a non-empty list it is
  the severity of one of the findings, and its number is the least severity number that
  occurs among the findings.
\<close>

theorem getHighestSeverity_smallest:
  "getHighestSeverity [] = NONE \<and>
   (fs \<noteq> [] \<longrightarrow>
      severityValue (getHighestSeverity fs) = Min (severityValue ` fSeverity ` set fs) \<and>
      getHighestSeverity fs \<in> fSeverity ` set fs)"
proof -
  have empty: "getHighestSeverity [] = NONE"
    by (simp add: getHighestSeverity_def)
  have nonempty: "severityValue (getHighestSeverity fs) = Min (severityValue ` fSeverity ` set fs) \<and>
      getHighestSeverity fs \<in> fSeverity ` set fs" if ne: "fs \<noteq> []"
  proof -
    let ?V = "severityValue ` fSeverity ` set fs"
    have fin: "finite ?V" and nonemp: "?V \<noteq> {}"
      using ne by simp_all
    have "Min ?V \<in> ?V"
      using fin nonemp by (rule Min_in)
    then have le: "Min ?V \<le> 100"
      using severityValue_le_NONE by auto
    have "Min (insert 100 ?V) = min 100 (Min ?V)"
      using fin nonemp by (rule Min_insert)
    with le have "Min (insert 100 ?V) = Min ?V"
      by (simp only: min_absorb2)
    moreover have "severityValue (getHighestSeverity fs) = Min (insert 100 ?V)"
      using ne by (simp add: getHighestSeverity_def foldl_minSeverity_value image_image)
    ultimately have val: "severityValue (getHighestSeverity fs) = Min ?V"
      by simp
    from \<open>Min ?V \<in> ?V\<close> obtain f where f: "f \<in> set fs" "severityValue (fSeverity f) = Min ?V"
      by auto
    with val have "getHighestSeverity fs = fSeverity f"
      by (simp add: severityValue_inj)
    with f val show ?thesis by auto
  qed
  from empty nonempty show ?thesis by blast
qed

theorem getHighestSeverity_smallest_witness:
  "getHighestSeverity [] = NONE \<and>
   [mkFinding IGNORED [] INFO [] None, mkFinding SRC_HTTP [] MEDIUM [] None,
    mkFinding IGNORED [] NONE [] None] \<noteq> [] \<and>
   getHighestSeverity
     [mkFinding IGNORED [] INFO [] None, mkFinding SRC_HTTP [] MEDIUM [] None,
      mkFinding IGNORED [] NONE [] None] = MEDIUM"
  using getHighestSeverity_smallest
    [of "[mkFinding IGNORED [] INFO [] None, mkFinding SRC_HTTP [] MEDIUM [] None,
          mkFinding IGNORED [] NONE [] None]"]
  by (simp add: getHighestSeverity_def minSeverity_def mkFinding_def)


section \<open>Wildcard matching returns the first matching candidate\<close>

definition loopAccepts ::
  "jsstring \<Rightarrow> bool \<Rightarrow> jsstring \<Rightarrow> jsstring \<Rightarrow> bool \<Rightarrow> Uri \<Rightarrow> bool" where
  "loopAccepts host hostHasWildcard wildcardFreeHost path hasPath url =
     (endsWith (getDomain url) wildcardFreeHost \<and>
      (hostHasWildcard \<or> host = getDomain url) \<and>
      (hasPath \<longrightarrow>
         (if endsWith path (js ''/'') then startsWith (getPath url) path
          else getPath url = path)))"

lemma matchLoop_Cons:
  "matchLoop host hostHasWildcard wildcardFreeHost path hasPath (url # listOfUrls) =
     (if loopAccepts host hostHasWildcard wildcardFreeHost path hasPath url then Some url
      else matchLoop host hostHasWildcard wildcardFreeHost path hasPath listOfUrls)"
  by (auto simp add: loopAccepts_def Let_def)

lemma matchLoop_find:
  "matchLoop host hostHasWildcard wildcardFreeHost path hasPath listOfUrls =
     find (loopAccepts host hostHasWildcard wildcardFreeHost path hasPath) listOfUrls"
proof (induction listOfUrls)
  case Nil
  show ?case by simp
next
  case (Cons url listOfUrls)
  show ?case
    unfolding matchLoop_Cons by (simp add: Cons.IH)
qed

lemma endsWith_iff: "endsWith s p \<longleftrightarrow> (\<exists>q. s = q @ p)"
proof
  assume "endsWith s p"
  then have "drop (length s - length p) s = p"
    by (simp add: endsWith_def)
  then have "s = take (length s - length p) s @ p"
    using append_take_drop_id [of "length s - length p" s] by simp
  then show "\<exists>q. s = q @ p" ..
next
  assume "\<exists>q. s = q @ p"
  then show "endsWith s p"
    by (auto simp: endsWith_def)
qed

lemma endsWith_removeLeadingAsterisk: "endsWith host (removeLeadingAsterisk host)"
proof (cases host)
  case Nil
  then show ?thesis
    by (simp add: removeLeadingAsterisk_def endsWith_def)
next
  case (Cons c cs)
  have "endsWith (c # cs) (c # cs)" "endsWith (c # cs) cs"
    by (simp_all add: endsWith_def)
  then show ?thesis
    by (auto simp: removeLeadingAsterisk_def Cons)
qed

lemma wildcard_host:
  assumes "startsWith host (js ''*.'')"
  shows "removeLeadingAsterisk host = js ''.'' @ stripWildcardPrefix host"
proof -
  from assms obtain rest where "host = Latin CHR ''*'' # Latin CHR ''.'' # rest"
    by (cases host; cases "tl host") (auto simp: startsWith_def js_def)
  then show ?thesis
    using assms by (simp add: removeLeadingAsterisk_def stripWildcardPrefix_def js_def)
qed

lemma hostMatches_wildcard:
  assumes "startsWith host (js ''*.'')"
  shows "endsWith domain (removeLeadingAsterisk host) \<longleftrightarrow>
     endsWith domain (stripWildcardPrefix host) \<and>
     endsWith domain (js ''.'' @ stripWildcardPrefix host)"
proof -
  have "endsWith domain (stripWildcardPrefix host)"
    if "endsWith domain (js ''.'' @ stripWildcardPrefix host)"
  proof -
    from that obtain q where "domain = (q @ js ''.'') @ stripWildcardPrefix host"
      by (auto simp: endsWith_iff)
    then show ?thesis
      unfolding endsWith_iff ..
  qed
  then show ?thesis
    unfolding wildcard_host [OF assms] by blast
qed

lemma hostMatches_plain:
  assumes "\<not> startsWith host (js ''*.'')"
  shows "endsWith domain (removeLeadingAsterisk host) \<and> host = domain \<longleftrightarrow>
     endsWith domain (stripWildcardPrefix host) \<and> domain = host"
proof -
  have "endsWith host host"
    by (simp add: endsWith_def)
  with assms endsWith_removeLeadingAsterisk [of host] show ?thesis
    by (auto simp: stripWildcardPrefix_def)
qed

lemma dotCandidateMatches_loopAccepts:
  "dotCandidateMatches cspUrl url =
     loopAccepts (toLowerCase (getDomain cspUrl))
       (startsWith (toLowerCase (getDomain cspUrl)) (js ''*.''))
       (removeLeadingAsterisk (toLowerCase (getDomain cspUrl)))
       (getPath cspUrl) (Uri_hasPath cspUrl) url"
proof (cases "startsWith (toLowerCase (getDomain cspUrl)) (js ''*.'')")
  case True
  show ?thesis
    unfolding dotCandidateMatches_def specCandidateMatches_def loopAccepts_def Let_def
      hostMatches_wildcard [OF True]
    using True by blast
next
  case False
  show ?thesis
    unfolding dotCandidateMatches_def specCandidateMatches_def loopAccepts_def Let_def
    using False hostMatches_plain [OF False, of "getDomain url"] by blast
qed

text \<open>
  Claim C3, amended. \<open>matchWildcardUrls\<close> returns the first candidate of the list (in list
  order) whose domain ends with the pattern's lowercased host without its leading \<open>*.\<close>,
  and with a dot before it when the pattern host began with \<open>*.\<close>; where the pattern host
  began with \<open>*.\<close> or the candidate's domain equals the lowercased pattern host; and whose
  path, when the pattern has a path, starts with the pattern's path if that ends in \<open>/\<close> and
  equals it otherwise. It returns nothing when no candidate satisfies all of these. The
  pattern \<open>//*.google.com/wrongPath\<close> (domain \<open>*.google.com\<close>, path \<open>/wrongPath\<close>) does
  not match the candidate \<open>//www.google.com/jsapi\<close>.
\<close>

theorem matchWildcardUrls_first_match:
  "matchWildcardUrls cspUrl listOfUrls = find (dotCandidateMatches cspUrl) listOfUrls \<and>
   matchWildcardUrls \<lparr>getDomain = js ''*.google.com'', getPath = js ''/wrongPath''\<rparr>
     [\<lparr>getDomain = js ''www.google.com'', getPath = js ''/jsapi''\<rparr>] = None"
proof
  have "dotCandidateMatches cspUrl =
      loopAccepts (toLowerCase (getDomain cspUrl))
        (startsWith (toLowerCase (getDomain cspUrl)) (js ''*.''))
        (removeLeadingAsterisk (toLowerCase (getDomain cspUrl)))
        (getPath cspUrl) (Uri_hasPath cspUrl)"
    by (rule ext) (rule dotCandidateMatches_loopAccepts)
  then show "matchWildcardUrls cspUrl listOfUrls = find (dotCandidateMatches cspUrl) listOfUrls"
    by (simp add: matchWildcardUrls_def Let_def matchLoop_find)
  show "matchWildcardUrls \<lparr>getDomain = js ''*.google.com'', getPath = js ''/wrongPath''\<rparr>
     [\<lparr>getDomain = js ''www.google.com'', getPath = js ''/jsapi''\<rparr>] = None"
    by code_simp
qed

text \<open>
  A pattern with the wildcard, an upper-case letter and a directory path. The first
  candidate has the bare domain, the second one the wrong path.
\<close>

theorem matchWildcardUrls_first_match_witness:
  "matchWildcardUrls \<lparr>getDomain = js ''*.Google.com'', getPath = js ''/ajax/''\<rparr>
     [\<lparr>getDomain = js ''google.com'', getPath = js ''/ajax/libs''\<rparr>,
      \<lparr>getDomain = js ''www.google.com'', getPath = js ''/jsapi''\<rparr>,
      \<lparr>getDomain = js ''ajax.google.com'', getPath = js ''/ajax/libs''\<rparr>,
      \<lparr>getDomain = js ''www.google.com'', getPath = js ''/ajax/''\<rparr>]
   = Some \<lparr>getDomain = js ''ajax.google.com'', getPath = js ''/ajax/libs''\<rparr>"
proof -
  have "find (dotCandidateMatches \<lparr>getDomain = js ''*.Google.com'', getPath = js ''/ajax/''\<rparr>)
     [\<lparr>getDomain = js ''google.com'', getPath = js ''/ajax/libs''\<rparr>,
      \<lparr>getDomain = js ''www.google.com'', getPath = js ''/jsapi''\<rparr>,
      \<lparr>getDomain = js ''ajax.google.com'', getPath = js ''/ajax/libs''\<rparr>,
      \<lparr>getDomain = js ''www.google.com'', getPath = js ''/ajax/''\<rparr>]
   = Some \<lparr>getDomain = js ''ajax.google.com'', getPath = js ''/ajax/libs''\<rparr>"
    by code_simp
  then show ?thesis
    using matchWildcardUrls_first_match
      [of "\<lparr>getDomain = js ''*.Google.com'', getPath = js ''/ajax/''\<rparr>"
          "[\<lparr>getDomain = js ''google.com'', getPath = js ''/ajax/libs''\<rparr>,
            \<lparr>getDomain = js ''www.google.com'', getPath = js ''/jsapi''\<rparr>,
            \<lparr>getDomain = js ''ajax.google.com'', getPath = js ''/ajax/libs''\<rparr>,
            \<lparr>getDomain = js ''www.google.com'', getPath = js ''/ajax/''\<rparr>]"]
    by simp
qed

text \<open>
  Claim C3 as stated fails: with the wildcard-free host of the specification, which has no
  dot in front, the first candidate that satisfies the stated condition is not what
  \<open>matchWildcardUrls\<close> returns. For the pattern \<open>//*.google.com\<close> the candidates
  \<open>//evilgoogle.com\<close> and \<open>//google.com\<close> both satisfy it, and the function returns
  nothing. For the pattern \<open>//*.www.google.com\<close> and the three candidates of the
  repository's tests the candidate \<open>//www.google.com/jsapi\<close> satisfies it, and the function
  returns nothing, as \<open>testMatchWildcardUrlsNoMatchWildcardHost\<close> expects.
\<close>

theorem matchWildcardUrls_spec_counterexample:
  "find (specCandidateMatches \<lparr>getDomain = js ''*.google.com'', getPath = []\<rparr>)
     [\<lparr>getDomain = js ''evilgoogle.com'', getPath = []\<rparr>,
      \<lparr>getDomain = js ''google.com'', getPath = []\<rparr>]
     = Some \<lparr>getDomain = js ''evilgoogle.com'', getPath = []\<rparr> \<and>
   matchWildcardUrls \<lparr>getDomain = js ''*.google.com'', getPath = []\<rparr>
     [\<lparr>getDomain = js ''evilgoogle.com'', getPath = []\<rparr>,
      \<lparr>getDomain = js ''google.com'', getPath = []\<rparr>] = None \<and>
   find (specCandidateMatches \<lparr>getDomain = js ''*.www.google.com'', getPath = []\<rparr>)
     [\<lparr>getDomain = js ''googletagmanager.com'', getPath = js ''/gtm/js''\<rparr>,
      \<lparr>getDomain = js ''www.google.com'', getPath = js ''/jsapi''\<rparr>,
      \<lparr>getDomain = js ''ajax.googleapis.com'', getPath = js ''/ajax/services/feed/load''\<rparr>]
     = Some \<lparr>getDomain = js ''www.google.com'', getPath = js ''/jsapi''\<rparr> \<and>
   matchWildcardUrls \<lparr>getDomain = js ''*.www.google.com'', getPath = []\<rparr>
     [\<lparr>getDomain = js ''googletagmanager.com'', getPath = js ''/gtm/js''\<rparr>,
      \<lparr>getDomain = js ''www.google.com'', getPath = js ''/jsapi''\<rparr>,
      \<lparr>getDomain = js ''ajax.googleapis.com'', getPath = js ''/ajax/services/feed/load''\<rparr>]
     = None"
  by code_simp


section \<open>The script allowlist check and \<open>'none'\<close>\<close>

text \<open>
  Claim C9. When the value list of the effective \<open>script-src\<close> directive contains
  \<open>'none'\<close>, \<open>checkScriptWhitelistBypass\<close> returns no finding, whatever the other values
  and the bypass tables are.
\<close>

theorem checkScriptWhitelistBypass_none:
  "Keyword_NONE \<in> set (valuesOrEmpty parsedCsp (getEffectiveDirective parsedCsp SCRIPT_SRC))
   \<Longrightarrow> checkScriptWhitelistBypass T parsedCsp = []"
  by (simp add: checkScriptWhitelistBypass_def)

definition exampleTables :: bypassTables where
  "exampleTables =
     \<lparr>newUri = (\<lambda>s. \<lparr>getDomain = drop 2 s, getPath = []\<rparr>),
      angularURLS = [\<lparr>getDomain = js ''cdn.example.com'', getPath = js ''/angular.js''\<rparr>],
      jsonpURLS = [],
      NEEDS_EVAL = []\<rparr>"

theorem checkScriptWhitelistBypass_none_witness:
  "Keyword_NONE \<in> set (valuesOrEmpty
       (parseCsp (js ''default-src 'self' cdn.example.com 'none' https:''))
       (getEffectiveDirective
          (parseCsp (js ''default-src 'self' cdn.example.com 'none' https:'')) SCRIPT_SRC)) \<and>
   checkScriptWhitelistBypass exampleTables
     (parseCsp (js ''default-src 'self' cdn.example.com 'none' https:'')) = [] \<and>
   length (checkScriptWhitelistBypass exampleTables
     (parseCsp (js ''default-src 'self' cdn.example.com https:''))) = 2"
proof -
  have mem: "Keyword_NONE \<in> set (valuesOrEmpty
       (parseCsp (js ''default-src 'self' cdn.example.com 'none' https:''))
       (getEffectiveDirective
          (parseCsp (js ''default-src 'self' cdn.example.com 'none' https:'')) SCRIPT_SRC))"
    by code_simp
  have other: "length (checkScriptWhitelistBypass exampleTables
     (parseCsp (js ''default-src 'self' cdn.example.com https:''))) = 2"
    by code_simp
  from mem other checkScriptWhitelistBypass_none [OF mem, of exampleTables]
  show ?thesis by simp
qed


section \<open>The branching of \<open>checkMissingDirectives\<close>\<close>

text \<open>None of the directive names that the checks look up is inherited from \<open>Object.prototype\<close>.\<close>

lemma inObject_directives:
  "inObject DEFAULT_SRC obj = hasOwnProperty obj DEFAULT_SRC"
  "inObject SCRIPT_SRC obj = hasOwnProperty obj SCRIPT_SRC"
  "inObject OBJECT_SRC obj = hasOwnProperty obj OBJECT_SRC"
  "inObject BASE_URI obj = hasOwnProperty obj BASE_URI"
  by (simp_all add: inObject_def objectPrototypeKeys_def js_def
      DEFAULT_SRC_def SCRIPT_SRC_def OBJECT_SRC_def BASE_URI_def)

lemma directive_names_differ:
  "SCRIPT_SRC \<noteq> OBJECT_SRC" "SCRIPT_SRC \<noteq> BASE_URI" "OBJECT_SRC \<noteq> BASE_URI"
  "BASE_URI \<noteq> OBJECT_SRC"
  by (simp_all add: js_def SCRIPT_SRC_def OBJECT_SRC_def BASE_URI_def)

text \<open>The findings that the claim names.\<close>

definition objectSrcRestrictFinding :: Finding where
  "objectSrcRestrictFinding =
     mkFinding MISSING_DIRECTIVES (js ''Can you restrict object-src to 'none'?'')
       HIGH_MAYBE OBJECT_SRC None"

definition missingFinding :: "jsstring \<Rightarrow> Finding" where
  "missingFinding directive =
     mkFinding MISSING_DIRECTIVES
       (if directive = OBJECT_SRC
        then js ''Missing object-src allows the injection of plugins which can execute JavaScript. Can you set it to 'none'?''
        else if directive = BASE_URI
        then js ''Missing base-uri allows the injection of base tags. They can be used to set the base URL for all relative (script) URLs to an attacker controlled domain. Can you set it to 'none' or 'self'?''
        else directive @ js '' directive is missing.'')
       HIGH directive None"

text \<open>
  Claim C2. With \<open>default-src\<close> present: the \<open>HIGH_MAYBE\<close> finding for \<open>object-src\<close> exactly
  when \<open>object-src\<close> is absent and \<open>'none'\<close> is not a value of \<open>default-src\<close>; then nothing
  more when \<open>base-uri\<close> is present, and otherwise only the check of \<open>base-uri\<close>. With
  \<open>default-src\<close> absent: \<open>script-src\<close>, \<open>object-src\<close> and \<open>base-uri\<close> are checked in this
  order. In both cases an absent \<open>base-uri\<close> is reported exactly when the policy has script
  nonces, or script hashes together with \<open>'strict-dynamic'\<close>.
\<close>

theorem checkMissingDirectives_branching:
  "checkMissingDirectives parsedCsp =
     (if hasOwnProperty parsedCsp DEFAULT_SRC
      then (if \<not> hasOwnProperty parsedCsp OBJECT_SRC \<and>
               Keyword_NONE \<notin> set (valuesOrEmpty parsedCsp DEFAULT_SRC)
            then [objectSrcRestrictFinding] else [])
           @ (if hasOwnProperty parsedCsp BASE_URI then []
              else if policyHasScriptNonces parsedCsp \<or>
                      (policyHasScriptHashes parsedCsp \<and> policyHasStrictDynamic parsedCsp)
              then [missingFinding BASE_URI] else [])
      else (if hasOwnProperty parsedCsp SCRIPT_SRC then [] else [missingFinding SCRIPT_SRC])
           @ (if hasOwnProperty parsedCsp OBJECT_SRC then [] else [missingFinding OBJECT_SRC])
           @ (if hasOwnProperty parsedCsp BASE_URI then []
              else if policyHasScriptNonces parsedCsp \<or>
                      (policyHasScriptHashes parsedCsp \<and> policyHasStrictDynamic parsedCsp)
              then [missingFinding BASE_URI] else []))"
  by (simp add: checkMissingDirectives_def DIRECTIVES_CAUSING_XSS_def inObject_directives
      directive_names_differ objectSrcRestrictFinding_def missingFinding_def Let_def)


section \<open>The parser keeps the first occurrence of a directive\<close>

lemma bit5_not_upper: "digit5 c \<Longrightarrow> \<not> isUpperLatin c"
proof -
  assume d: "digit5 c"
  obtain b0 b1 b2 b3 b4 b5 b6 b7 where c: "c = Char b0 b1 b2 b3 b4 b5 b6 b7"
    by (cases c)
  define lo :: nat where
    "lo = of_bool b0 + 2 * of_bool b1 + 4 * of_bool b2 + 8 * of_bool b3 + 16 * of_bool b4"
  have lo: "lo < 32"
    unfolding lo_def by (cases b0; cases b1; cases b2; cases b3; cases b4) simp_all
  have v: "(of_char c :: nat) = lo + 32 + 64 * of_bool b6 + 128 * of_bool b7"
    using d by (simp add: c lo_def)
  show ?thesis
    unfolding isUpperLatin_def Let_def v using lo
    by (cases b6; cases b7) simp_all
qed

lemma lowerLatin_idem: "lowerLatin (lowerLatin b) = lowerLatin b"
  by (simp add: lowerLatin_def bit5_not_upper)

lemma lowerChar_idem: "lowerChar (lowerChar c) = lowerChar c"
  by (cases c) (simp_all add: lowerLatin_idem)

lemma toLowerCase_idem: "toLowerCase (toLowerCase s) = toLowerCase s"
  by (simp add: toLowerCase_def lowerChar_idem)

lemma set_insertIndexed: "set (insertIndexed i k v obj) = insert (k, v) (set obj)"
  by (induction obj) (auto split: option.splits if_splits)

lemma map_of_insertIndexed:
  "k \<notin> fst ` set obj \<Longrightarrow>
   map_of (insertIndexed i k v obj) k' = (if k' = k then Some v else map_of obj k')"
  by (induction obj) (auto split: option.splits)

lemma map_of_snoc:
  "k \<notin> fst ` set obj \<Longrightarrow>
   map_of (obj @ [(k, v)]) k' = (if k' = k then Some v else map_of obj k')"
  by (induction obj) auto

lemma distinct_insertIndexed:
  "k \<notin> fst ` set obj \<Longrightarrow> distinct (map fst obj) \<Longrightarrow>
   distinct (map fst (insertIndexed i k v obj))"
  by (induction obj) (auto simp: set_insertIndexed split: option.splits)

lemma objectKeys_setProp_new:
  "\<not> hasOwnProperty obj k \<Longrightarrow> set (objectKeys (setProp obj k v)) = insert k (set (objectKeys obj))"
  by (auto simp: setProp_def objectKeys_def hasOwnProperty_def set_insertIndexed
      split: option.splits)

lemma getProp_setProp_new:
  "\<not> hasOwnProperty obj k \<Longrightarrow>
   getProp (setProp obj k v) k' = (if k' = k then Some v else getProp obj k')"
  by (simp add: setProp_def getProp_def objectKeys_def hasOwnProperty_def map_of_insertIndexed
      map_of_snoc del: map_of_append split: option.splits)

lemma distinct_setProp_new:
  "\<not> hasOwnProperty obj k \<Longrightarrow> distinct (objectKeys obj) \<Longrightarrow>
   distinct (objectKeys (setProp obj k v))"
  by (auto simp: setProp_def objectKeys_def hasOwnProperty_def distinct_insertIndexed
      split: option.splits)

lemma getProp_None_iff: "getProp obj k = None \<longleftrightarrow> \<not> hasOwnProperty obj k"
  by (simp add: getProp_def hasOwnProperty_def objectKeys_def map_of_eq_None_iff)

text \<open>One round of the token loop, in terms of the three functions above.\<close>

lemma parseTokens_Cons:
  "parseTokens ret (tok # toks) =
     (if isDirectiveToken tok \<and> \<not> inObject (tokenName tok) ret
      then parseTokens (setProp ret (tokenName tok) (tokenValues tok)) toks
      else parseTokens ret toks)"
  by (simp add: isDirectiveToken_def tokenName_def tokenValues_def Let_def)

lemma parseTokens_accept:
  "isDirectiveToken tok \<Longrightarrow> \<not> inObject (tokenName tok) ret \<Longrightarrow>
   parseTokens ret (tok # toks) = parseTokens (setProp ret (tokenName tok) (tokenValues tok)) toks"
  by (simp only: parseTokens_Cons) simp

lemma parseTokens_skip:
  "\<not> (isDirectiveToken tok \<and> \<not> inObject (tokenName tok) ret) \<Longrightarrow>
   parseTokens ret (tok # toks) = parseTokens ret toks"
  by (simp only: parseTokens_Cons) simp

lemma parseTokens_keys_lower:
  "\<forall>k\<in>set (objectKeys ret). toLowerCase k = k \<Longrightarrow>
   \<forall>k\<in>set (objectKeys (parseTokens ret toks)). toLowerCase k = k"
proof (induction toks arbitrary: ret)
  case Nil
  then show ?case by simp
next
  case (Cons tok toks)
  show ?case
  proof (cases "isDirectiveToken tok \<and> \<not> inObject (tokenName tok) ret")
    case True
    then have "\<not> hasOwnProperty ret (tokenName tok)"
      by (simp add: inObject_def)
    then have "\<forall>k\<in>set (objectKeys (setProp ret (tokenName tok) (tokenValues tok))).
        toLowerCase k = k"
      using Cons.prems by (simp add: objectKeys_setProp_new tokenName_def toLowerCase_idem)
    from Cons.IH [OF this] True show ?thesis
      by (simp add: parseTokens_accept del: parseTokens.simps)
  next
    case False
    with Cons.IH [OF Cons.prems] show ?thesis
      by (simp add: parseTokens_skip del: parseTokens.simps)
  qed
qed

lemma parseTokens_distinct:
  "distinct (objectKeys ret) \<Longrightarrow> distinct (objectKeys (parseTokens ret toks))"
proof (induction toks arbitrary: ret)
  case Nil
  then show ?case by simp
next
  case (Cons tok toks)
  show ?case
  proof (cases "isDirectiveToken tok \<and> \<not> inObject (tokenName tok) ret")
    case True
    then have "\<not> hasOwnProperty ret (tokenName tok)"
      by (simp add: inObject_def)
    then have "distinct (objectKeys (setProp ret (tokenName tok) (tokenValues tok)))"
      using Cons.prems by (rule distinct_setProp_new)
    from Cons.IH [OF this] True show ?thesis
      by (simp add: parseTokens_accept del: parseTokens.simps)
  next
    case False
    with Cons.IH [OF Cons.prems] show ?thesis
      by (simp add: parseTokens_skip del: parseTokens.simps)
  qed
qed

text \<open>
  The value list of a name in the result: the one the policy had already, or else the values
  of the first directive token with this name, unless the name is inherited.
\<close>

lemma parseTokens_getProp:
  "getProp (parseTokens ret toks) k =
     (if hasOwnProperty ret k then getProp ret k
      else if k \<in> set objectPrototypeKeys then None
      else map_option tokenValues (find (\<lambda>tok. tokenName tok = k) (filter isDirectiveToken toks)))"
proof (induction toks arbitrary: ret)
  case Nil
  show ?case by (simp add: getProp_None_iff)
next
  case (Cons tok toks)
  show ?case
  proof (cases "isDirectiveToken tok \<and> \<not> inObject (tokenName tok) ret")
    case True
    then have new: "\<not> hasOwnProperty ret (tokenName tok)"
      and notproto: "tokenName tok \<notin> set objectPrototypeKeys"
      by (simp_all add: inObject_def)
    have "getProp (parseTokens ret (tok # toks)) k =
        getProp (parseTokens (setProp ret (tokenName tok) (tokenValues tok)) toks) k"
      using True by (simp add: parseTokens_accept del: parseTokens.simps)
    also have "\<dots> = (if hasOwnProperty ret k then getProp ret k
      else if k \<in> set objectPrototypeKeys then None
      else map_option tokenValues
             (find (\<lambda>tok. tokenName tok = k) (filter isDirectiveToken (tok # toks))))"
      using True new notproto
      by (auto simp add: Cons.IH getProp_setProp_new hasOwnProperty_def objectKeys_setProp_new)
    finally show ?thesis .
  next
    case False
    have "getProp (parseTokens ret (tok # toks)) k = getProp (parseTokens ret toks) k"
      using False by (simp add: parseTokens_skip del: parseTokens.simps)
    also have "\<dots> = (if hasOwnProperty ret k then getProp ret k
      else if k \<in> set objectPrototypeKeys then None
      else map_option tokenValues
             (find (\<lambda>tok. tokenName tok = k) (filter isDirectiveToken (tok # toks))))"
      using False by (auto simp add: Cons.IH inObject_def)
    finally show ?thesis .
  qed
qed


text \<open>
  Claim C4. For every policy string: every stored directive name is lowercase and occurs
  once; the value list stored for a name is the value list of the first directive token
  with this lowercased name (its values as the parser reads them: normalized, without
  repetitions), whatever later tokens with the same name say; and a token whose lowercased
  name is already a directive of the policy leaves the policy as it is. (A name inherited
  from \<open>Object.prototype\<close> is never stored, because \<open>in\<close> finds it in the empty policy.)
\<close>

theorem parseCsp_first_occurrence_wins:
  "(\<forall>k\<in>set (objectKeys (parseCsp s)). toLowerCase k = k) \<and>
   distinct (objectKeys (parseCsp s)) \<and>
   (\<forall>k. getProp (parseCsp s) k =
      (if k \<in> set objectPrototypeKeys then None
       else map_option tokenValues
              (find (\<lambda>tok. tokenName tok = k) (filter isDirectiveToken (split s (js '';'')))))) \<and>
   (\<forall>ret tok toks. hasOwnProperty ret (tokenName tok) \<longrightarrow>
      parseTokens ret (tok # toks) = parseTokens ret toks)"
proof (intro conjI allI impI)
  show "\<forall>k\<in>set (objectKeys (parseCsp s)). toLowerCase k = k"
    unfolding parseCsp_def by (rule parseTokens_keys_lower) (simp add: objectKeys_def)
  show "distinct (objectKeys (parseCsp s))"
    unfolding parseCsp_def by (rule parseTokens_distinct) (simp add: objectKeys_def)
  show "getProp (parseCsp s) k =
      (if k \<in> set objectPrototypeKeys then None
       else map_option tokenValues
              (find (\<lambda>tok. tokenName tok = k) (filter isDirectiveToken (split s (js '';'')))))"
    for k
    unfolding parseCsp_def parseTokens_getProp by (simp add: hasOwnProperty_def objectKeys_def)
  show "parseTokens ret (tok # toks) = parseTokens ret toks"
    if "hasOwnProperty ret (tokenName tok)" for ret tok toks
    using that by (simp add: parseTokens_skip inObject_def del: parseTokens.simps)
qed

theorem parseCsp_first_occurrence_wins_witness:
  "parseCsp (js ''default-src 'none' x x;DEFAULT-SRC foo.bar;object-src a;OBJECT-src b'')
     = [(js ''default-src'', [Keyword_NONE, js ''x'']), (js ''object-src'', [js ''a''])] \<and>
   find (\<lambda>tok. tokenName tok = js ''default-src'')
     (filter isDirectiveToken
        (split (js ''default-src 'none' x x;DEFAULT-SRC foo.bar;object-src a;OBJECT-src b'')
           (js '';'')))
     = Some (js ''default-src 'none' x x'') \<and>
   getProp (parseCsp (js ''default-src 'none' x x;DEFAULT-SRC foo.bar;object-src a;OBJECT-src b''))
     (js ''default-src'') = Some (tokenValues (js ''default-src 'none' x x''))"
proof -
  let ?s = "js ''default-src 'none' x x;DEFAULT-SRC foo.bar;object-src a;OBJECT-src b''"
  have whole: "parseCsp ?s
     = [(js ''default-src'', [Keyword_NONE, js ''x'']), (js ''object-src'', [js ''a''])]"
    by code_simp
  have toks: "filter isDirectiveToken (split ?s (js '';'')) =
      [js ''default-src 'none' x x'', js ''DEFAULT-SRC foo.bar'', js ''object-src a'',
       js ''OBJECT-src b'']"
    by code_simp
  have name: "tokenName (js ''default-src 'none' x x'') = js ''default-src''"
    by code_simp
  have own: "js ''default-src'' \<notin> set objectPrototypeKeys"
    by code_simp
  have first: "find (\<lambda>tok. tokenName tok = js ''default-src'')
      (filter isDirectiveToken (split ?s (js '';''))) = Some (js ''default-src 'none' x x'')"
    unfolding toks by (simp add: name)
  have "getProp (parseCsp ?s) (js ''default-src'') =
      (if js ''default-src'' \<in> set objectPrototypeKeys then None
       else map_option tokenValues
              (find (\<lambda>tok. tokenName tok = js ''default-src'')
                 (filter isDirectiveToken (split ?s (js '';'')))))"
    by (rule parseCsp_first_occurrence_wins
        [of ?s, THEN conjunct2, THEN conjunct2, THEN conjunct1, THEN spec])
  then have "getProp (parseCsp ?s) (js ''default-src'')
      = Some (tokenValues (js ''default-src 'none' x x''))"
    by (simp only: own first if_False option.map)
  with whole first show ?thesis by (intro conjI)
qed

lemma trim_padded:
  assumes "name \<noteq> []" "\<not> isWhitespace (hd name)" "\<not> isWhitespace (last name)"
    and "list_all isWhitespace ws1" "list_all isWhitespace ws2"
  shows "trim (ws1 @ name @ ws2) = name"
proof -
  have "dropWhile isWhitespace (ws1 @ name @ ws2) = dropWhile isWhitespace (name @ ws2)"
    using assms(4) by (simp add: dropWhile_append2 list_all_iff)
  also have "\<dots> = name @ ws2"
    using assms(1,2) by (cases name) simp_all
  finally have front: "dropWhile isWhitespace (ws1 @ name @ ws2) = name @ ws2" .
  have "dropWhile isWhitespace (rev ws2 @ rev name) = dropWhile isWhitespace (rev name)"
    using assms(5) by (intro dropWhile_append2) (simp add: list_all_iff)
  then have "dropWhile isWhitespace (rev (name @ ws2)) = dropWhile isWhitespace (rev name)"
    by simp
  also have "\<dots> = rev name"
    using assms(1,3) by (cases name rule: rev_cases) simp_all
  finally show ?thesis
    by (simp add: trim_def front)
qed

lemma matchNonSpace_word:
  "name \<noteq> [] \<Longrightarrow> \<forall>c\<in>set name. \<not> isWhitespace c \<Longrightarrow> matchNonSpace name = [name]"
  by (cases name) (simp_all add: takeWhile_eq_all_conv [THEN iffD2] dropWhile_eq_Nil_conv [THEN iffD2])

text \<open>
  Claim C10. A directive token that consists of a directive name only (possibly with
  whitespace around it), reached when the policy under construction does not have this name
  yet, puts the lowercased name into the policy with the empty value list, whatever tokens
  follow; \<open>getEffectiveDirective\<close> for this name then returns the name itself and not
  \<open>default-src\<close>.
\<close>

theorem name_only_token_present:
  assumes name: "name \<noteq> []" "\<forall>c\<in>set name. \<not> isWhitespace c" "isLatin1 name"
    and pad: "list_all isWhitespace ws1" "list_all isWhitespace ws2"
    and new: "\<not> inObject (toLowerCase name) ret"
  shows "getProp (parseTokens ret ((ws1 @ name @ ws2) # rest)) (toLowerCase name) = Some [] \<and>
         getEffectiveDirective (parseTokens ret ((ws1 @ name @ ws2) # rest)) (toLowerCase name)
           = toLowerCase name"
proof -
  let ?tok = "ws1 @ name @ ws2"
  have tr: "trim ?tok = name"
    using name(1,2) pad by (intro trim_padded) (simp_all add: hd_in_set)
  have parts: "matchNonSpace name = [name]"
    using name(1,2) by (rule matchNonSpace_word)
  have tok: "isDirectiveToken ?tok" "tokenName ?tok = toLowerCase name" "tokenValues ?tok = []"
    using name(1,3) by (simp_all add: isDirectiveToken_def tokenName_def tokenValues_def tr parts)
  have own: "hasOwnProperty (setProp ret (toLowerCase name) []) (toLowerCase name)"
    using new by (simp add: hasOwnProperty_def objectKeys_setProp_new inObject_def)
  have "parseTokens ret (?tok # rest) = parseTokens (setProp ret (toLowerCase name) []) rest"
    using tok new by (simp add: parseTokens_accept del: parseTokens.simps)
  moreover have "getProp (parseTokens (setProp ret (toLowerCase name) []) rest) (toLowerCase name)
      = Some []"
    using new own by (simp add: parseTokens_getProp getProp_setProp_new inObject_def)
  ultimately have present: "getProp (parseTokens ret (?tok # rest)) (toLowerCase name) = Some []"
    by simp
  then have "hasOwnProperty (parseTokens ret (?tok # rest)) (toLowerCase name)"
    using getProp_None_iff [of "parseTokens ret (?tok # rest)" "toLowerCase name"] by simp
  then have "getEffectiveDirective (parseTokens ret (?tok # rest)) (toLowerCase name)
      = toLowerCase name"
    by (simp add: getEffectiveDirective_def inObject_def)
  with present show ?thesis by simp
qed

theorem name_only_token_present_witness:
  "js ''Script-Src'' \<noteq> [] \<and> list_all (\<lambda>c. \<not> isWhitespace c) (js ''Script-Src'') \<and>
   isLatin1 (js ''Script-Src'') \<and> list_all isWhitespace (js '' '') \<and>
   list_all isWhitespace (js ''  '') \<and>
   \<not> inObject (toLowerCase (js ''Script-Src'')) [(js ''default-src'', [Keyword_SELF])] \<and>
   toLowerCase (js ''Script-Src'') = SCRIPT_SRC \<and>
   getProp (parseTokens [(js ''default-src'', [Keyword_SELF])]
              [js '' '' @ js ''Script-Src'' @ js ''  '', js ''script-src x''])
     SCRIPT_SRC = Some [] \<and>
   getEffectiveDirective
     (parseTokens [(js ''default-src'', [Keyword_SELF])]
        [js '' '' @ js ''Script-Src'' @ js ''  '', js ''script-src x''])
     SCRIPT_SRC = SCRIPT_SRC \<and>
   parseCsp (js ''default-src 'self'; Script-Src  ;script-src x'')
     = [(js ''default-src'', [Keyword_SELF]), (SCRIPT_SRC, [])]"
proof -
  have h: "js ''Script-Src'' \<noteq> []" "\<forall>c\<in>set (js ''Script-Src''). \<not> isWhitespace c"
    "isLatin1 (js ''Script-Src'')" "list_all isWhitespace (js '' '')"
    "list_all isWhitespace (js ''  '')"
    "\<not> inObject (toLowerCase (js ''Script-Src'')) [(js ''default-src'', [Keyword_SELF])]"
    by code_simp+
  have low: "toLowerCase (js ''Script-Src'') = SCRIPT_SRC"
    by code_simp
  have whole: "parseCsp (js ''default-src 'self'; Script-Src  ;script-src x'')
     = [(js ''default-src'', [Keyword_SELF]), (SCRIPT_SRC, [])]"
    by code_simp
  have nows: "list_all (\<lambda>c. \<not> isWhitespace c) (js ''Script-Src'')"
    using h(2) by (simp only: list_all_iff)
  from name_only_token_present [OF h, of "[js ''script-src x'']"] h low whole nows
  show ?thesis by simp
qed


section \<open>Equations for evaluation\<close>

text \<open>
  The same functions as a chain of stages, each applied to the result of the one before:
  the simplifier evaluates an argument before it unfolds the function applied to it.
\<close>

definition cloneInto :: "heap \<times> nat \<Rightarrow> nat \<Rightarrow> heap \<times> nat" where
  "cloneInto hc parsedCsp =
     (cloneDirectives (fst hc) parsedCsp (snd hc) (objectKeys (readObject (fst hc) parsedCsp)),
      snd hc)"

lemma clone_code [code]: "clone h parsedCsp = cloneInto (allocObject h) parsedCsp"
  by (simp add: clone_def cloneInto_def split_beta)

definition removeCsp3 ::
  "int \<Rightarrow> nat \<Rightarrow> heap \<times> Finding list \<Rightarrow> heap \<times> nat \<times> Finding list" where
  "removeCsp3 cspVersion effectiveCsp hf =
     ((if cspVersion < 3
       then objectRemove (objectRemove (objectRemove (fst hf) effectiveCsp REPORT_TO)
              effectiveCsp WORKER_SRC) effectiveCsp MANIFEST_SRC
       else fst hf),
      effectiveCsp, snd hf)"

definition strictStage ::
  "nat \<Rightarrow> nat \<Rightarrow> jsstring \<Rightarrow> jsstring list \<Rightarrow> int \<Rightarrow> heap \<times> Finding list
     \<Rightarrow> heap \<times> nat \<times> Finding list" where
  "strictStage parsedCsp effectiveCsp directive values cspVersion hf =
     removeCsp3 cspVersion effectiveCsp
       (applyStrictDynamicRules (fst hf) parsedCsp effectiveCsp directive values cspVersion
          (snd hf))"

definition nonceStage ::
  "nat \<Rightarrow> int \<Rightarrow> Finding list \<Rightarrow> jsstring \<Rightarrow> jsstring list \<Rightarrow> heap \<times> nat
     \<Rightarrow> heap \<times> nat \<times> Finding list" where
  "nonceStage parsedCsp cspVersion findings directive values hc =
     strictStage parsedCsp (snd hc) directive values cspVersion
       (applyNonceRules (fst hc) (snd hc) directive values cspVersion findings)"

definition directiveStage ::
  "nat \<Rightarrow> int \<Rightarrow> Finding list \<Rightarrow> heap \<times> nat \<Rightarrow> jsstring \<Rightarrow> heap \<times> nat \<times> Finding list" where
  "directiveStage parsedCsp cspVersion findings hc directive =
     nonceStage parsedCsp cspVersion findings directive
       (valuesOrEmpty (loadCsp (fst hc) parsedCsp) directive) hc"

definition cloneStage ::
  "nat \<Rightarrow> int \<Rightarrow> Finding list \<Rightarrow> heap \<times> nat \<Rightarrow> heap \<times> nat \<times> Finding list" where
  "cloneStage parsedCsp cspVersion findings hc =
     directiveStage parsedCsp cspVersion findings hc
       (getEffectiveDirective_v1 (readObject (fst hc) parsedCsp) SCRIPT_SRC)"

lemma getEffectiveCsp_code [code]:
  "getEffectiveCsp h parsedCsp cspVersion findings =
     cloneStage parsedCsp cspVersion findings (clone h parsedCsp)"
  by (simp add: getEffectiveCsp_def cloneStage_def directiveStage_def nonceStage_def
      strictStage_def removeCsp3_def split_beta Let_def)


section \<open>The input of the effective-policy computation is not changed\<close>

text \<open>
  \<open>frameOf n m h h'\<close>: the first \<open>n\<close> arrays and the first \<open>m\<close> objects of \<open>h\<close> are the same
  in \<open>h'\<close>. \<open>fresh n m h c\<close>: the object \<open>c\<close> and all its arrays lie beyond them. Every step
  of the computation writes to a fresh object or to an array of one.
\<close>

definition addressesOf :: "'v jsobject \<Rightarrow> 'v set" where
  "addressesOf obj = snd ` set obj"

lemma addressesOf_Nil: "addressesOf [] = {}"
  by (simp add: addressesOf_def)

lemma addressesOf_deleteProp: "addressesOf (deleteProp obj k) \<subseteq> addressesOf obj"
  by (auto simp: addressesOf_def deleteProp_def)

lemma addressesOf_setProp: "addressesOf (setProp obj k v) \<subseteq> insert v (addressesOf obj)"
  by (auto simp: addressesOf_def setProp_def set_insertIndexed split: option.splits if_splits)

lemma getProp_addressesOf: "getProp obj d = Some a \<Longrightarrow> a \<in> addressesOf obj"
  by (auto simp: addressesOf_def getProp_def dest!: map_of_SomeD intro: rev_image_eqI)

definition frameOf :: "nat \<Rightarrow> nat \<Rightarrow> heap \<Rightarrow> heap \<Rightarrow> bool" where
  "frameOf n m h h' =
     (take n (arrays h') = take n (arrays h) \<and> take m (objects h') = take m (objects h) \<and>
      length (arrays h) \<le> length (arrays h') \<and> length (objects h) \<le> length (objects h'))"

definition fresh :: "nat \<Rightarrow> nat \<Rightarrow> heap \<Rightarrow> nat \<Rightarrow> bool" where
  "fresh n m h c =
     (m \<le> c \<and> c < length (objects h) \<and> (\<forall>a\<in>addressesOf (objects h ! c). n \<le> a))"

definition keeps :: "nat \<Rightarrow> nat \<Rightarrow> heap \<Rightarrow> heap \<Rightarrow> bool" where
  "keeps n m h h' = (frameOf n m h h' \<and> (\<forall>c. fresh n m h c \<longrightarrow> fresh n m h' c))"

lemma keeps_refl: "keeps n m h h"
  by (simp add: keeps_def frameOf_def)

lemma keeps_trans: "keeps n m h h' \<Longrightarrow> keeps n m h' h'' \<Longrightarrow> keeps n m h h''"
  by (auto simp: keeps_def frameOf_def)

lemma keeps_length: "keeps n m h h' \<Longrightarrow> length (arrays h) \<le> length (arrays h')"
  by (simp add: keeps_def frameOf_def)

lemma keeps_writeArray: "n \<le> a \<Longrightarrow> keeps n m h (writeArray h a xs)"
  by (simp add: keeps_def frameOf_def fresh_def writeArray_def)

lemma keeps_arrayRemove: "n \<le> a \<Longrightarrow> keeps n m h (arrayRemove h a v)"
  by (simp add: arrayRemove_def keeps_writeArray)

lemma keeps_objectRemove: "m \<le> c \<Longrightarrow> keeps n m h (objectRemove h c k)"
proof -
  assume mc: "m \<le> c"
  have "fresh n m (objectRemove h c k) c'" if f: "fresh n m h c'" for c'
  proof (cases "c' = c")
    case True
    with f have "c < length (objects h)" by (simp add: fresh_def)
    then show ?thesis
      using f True addressesOf_deleteProp [of "objects h ! c" k]
      by (auto simp: fresh_def objectRemove_def writeObject_def readObject_def)
  next
    case False
    with f show ?thesis
      by (simp add: fresh_def objectRemove_def writeObject_def)
  qed
  with mc show ?thesis
    by (simp add: keeps_def frameOf_def objectRemove_def writeObject_def)
qed

lemma keeps_cloneDirective:
  assumes "n \<le> length (arrays h)" "m \<le> c"
  shows "keeps n m h (cloneDirective p c h d)"
proof -
  define elements where
    "elements = (case getProp (readObject h p) d of Some arr \<Rightarrow> readArray h arr | None \<Rightarrow> [])"
  define h1 where "h1 = h\<lparr>arrays := arrays h @ [elements]\<rparr>"
  have res: "cloneDirective p c h d
      = writeObject h1 c (setProp (readObject h1 c) d (length (arrays h)))"
    by (simp add: cloneDirective_def allocArray_def elements_def h1_def Let_def)
  have "fresh n m (cloneDirective p c h d) c'" if f: "fresh n m h c'" for c'
  proof (cases "c' = c")
    case True
    with f have c: "c < length (objects h)" and old: "\<forall>a\<in>addressesOf (objects h ! c). n \<le> a"
      by (simp_all add: fresh_def)
    have "addressesOf (setProp (objects h ! c) d (length (arrays h)))
        \<subseteq> insert (length (arrays h)) (addressesOf (objects h ! c))"
      by (rule addressesOf_setProp)
    with old assms(1)
    have "\<forall>a\<in>addressesOf (setProp (objects h ! c) d (length (arrays h))). n \<le> a"
      by auto
    with c True assms(2) show ?thesis
      by (simp add: res fresh_def writeObject_def readObject_def h1_def)
  next
    case False
    with f show ?thesis
      by (simp add: res fresh_def writeObject_def h1_def)
  qed
  moreover have "frameOf n m h (cloneDirective p c h d)"
    using assms by (simp add: res frameOf_def writeObject_def h1_def)
  ultimately show ?thesis
    by (simp add: keeps_def)
qed

lemma keeps_cloneDirectives:
  "n \<le> length (arrays h) \<Longrightarrow> m \<le> c \<Longrightarrow> keeps n m h (cloneDirectives h p c keys)"
proof (induction keys arbitrary: h)
  case Nil
  show ?case by (simp add: cloneDirectives_def keeps_refl)
next
  case (Cons d keys)
  have step: "keeps n m h (cloneDirective p c h d)"
    using Cons.prems by (rule keeps_cloneDirective)
  then have "n \<le> length (arrays (cloneDirective p c h d))"
    using Cons.prems(1) keeps_length [OF step] by simp
  from Cons.IH [OF this Cons.prems(2)] step show ?case
    by (simp add: cloneDirectives_def keeps_trans)
qed

lemma clone_fresh:
  assumes "n \<le> length (arrays h)" "m \<le> length (objects h)"
  shows "keeps n m h (fst (clone h p)) \<and> fresh n m (fst (clone h p)) (snd (clone h p)) \<and>
         snd (clone h p) = length (objects h)"
proof -
  define h1 where "h1 = h\<lparr>objects := objects h @ [[]]\<rparr>"
  define c where "c = length (objects h)"
  have res: "clone h p = (cloneDirectives h1 p c (objectKeys (readObject h1 p)), c)"
    by (simp add: clone_def allocObject_def h1_def c_def)
  have k1: "keeps n m h h1"
    using assms by (auto simp: keeps_def frameOf_def fresh_def h1_def nth_append)
  have f1: "fresh n m h1 c"
    using assms by (simp add: fresh_def h1_def c_def addressesOf_Nil)
  have k2: "keeps n m h1 (cloneDirectives h1 p c (objectKeys (readObject h1 p)))"
    using assms by (intro keeps_cloneDirectives) (simp_all add: h1_def c_def)
  from k1 k2 have "keeps n m h (fst (clone h p))"
    by (simp add: res keeps_trans)
  moreover from k2 f1 have "fresh n m (fst (clone h p)) (snd (clone h p))"
    by (simp add: res keeps_def)
  ultimately show ?thesis
    by (simp add: res c_def)
qed

lemma keeps_removeNoncesAndHashes: "n \<le> arr \<Longrightarrow> keeps n m h (removeNoncesAndHashes h arr values)"
proof (induction "values" arbitrary: h)
  case Nil
  show ?case by (simp add: keeps_refl)
next
  case (Cons v "values")
  show ?case
    using Cons.IH [OF Cons.prems, of "arrayRemove h arr v"] Cons.IH [OF Cons.prems, of h]
      keeps_arrayRemove [OF Cons.prems, of m h v]
    by (auto intro: keeps_trans)
qed

lemma keeps_ignoreWhitelist:
  "n \<le> arr \<Longrightarrow> keeps n m h (fst (ignoreWhitelist h arr directive findings values))"
proof (induction "values" arbitrary: h findings)
  case Nil
  show ?case by (simp add: keeps_refl)
next
  case (Cons v "values")
  show ?case
    using Cons.IH [OF Cons.prems, of "arrayRemove h arr v"] Cons.IH [OF Cons.prems, of h]
      keeps_arrayRemove [OF Cons.prems, of m h v]
    by (auto intro: keeps_trans)
qed

lemma fresh_address:
  "fresh n m h c \<Longrightarrow> getProp (readObject h c) d = Some arr \<Longrightarrow> n \<le> arr"
  by (auto simp: fresh_def readObject_def dest!: getProp_addressesOf)

lemma keeps_applyNonceRules:
  "fresh n m h e \<Longrightarrow> keeps n m h (fst (applyNonceRules h e directive values cspVersion findings))"
  by (auto simp: applyNonceRules_def keeps_refl keeps_arrayRemove keeps_removeNoncesAndHashes
      dest: fresh_address split: option.splits)

lemma keeps_applyStrictDynamicRules:
  "fresh n m h e \<Longrightarrow>
   keeps n m h (fst (applyStrictDynamicRules h p e directive values cspVersion findings))"
  by (auto simp: applyStrictDynamicRules_def keeps_refl keeps_arrayRemove keeps_ignoreWhitelist
      dest: fresh_address split: option.splits)


lemma keeps_objectRemove_after:
  "keeps n m h h' \<Longrightarrow> m \<le> c \<Longrightarrow> keeps n m h (objectRemove h' c k)"
  by (blast intro: keeps_trans keeps_objectRemove)

lemma keeps_fresh: "keeps n m h h' \<Longrightarrow> fresh n m h c \<Longrightarrow> fresh n m h' c"
  by (simp add: keeps_def)

lemma fresh_ge: "fresh n m h c \<Longrightarrow> m \<le> c"
  by (simp add: fresh_def)

lemma keeps_getEffectiveCsp:
  assumes n: "n \<le> length (arrays h)" and m: "m \<le> length (objects h)"
  shows "keeps n m h (fst (getEffectiveCsp h p cspVersion findings)) \<and>
         fst (snd (getEffectiveCsp h p cspVersion findings)) = length (objects h)"
proof -
  obtain h1 e where c: "clone h p = (h1, e)"
    by (cases "clone h p")
  let ?d = "getEffectiveDirective_v1 (readObject h1 p) SCRIPT_SRC"
  let ?vals = "valuesOrEmpty (loadCsp h1 p) ?d"
  obtain h2 f2 where a: "applyNonceRules h1 e ?d ?vals cspVersion findings = (h2, f2)"
    by (cases "applyNonceRules h1 e ?d ?vals cspVersion findings")
  obtain h3 f3 where b: "applyStrictDynamicRules h2 p e ?d ?vals cspVersion f2 = (h3, f3)"
    by (cases "applyStrictDynamicRules h2 p e ?d ?vals cspVersion f2")
  define h4 where "h4 = (if cspVersion < 3
      then objectRemove (objectRemove (objectRemove h3 e REPORT_TO) e WORKER_SRC) e MANIFEST_SRC
      else h3)"
  have res: "getEffectiveCsp h p cspVersion findings = (h4, e, f3)"
    by (simp add: getEffectiveCsp_def c a b h4_def Let_def)
  from clone_fresh [OF n m, of p] c
  have k1: "keeps n m h h1" and f1: "fresh n m h1 e" and e: "e = length (objects h)"
    by auto
  from keeps_applyNonceRules [OF f1, of ?d ?vals cspVersion findings] a
  have k2: "keeps n m h1 h2" by simp
  have f2: "fresh n m h2 e"
    using k2 f1 by (rule keeps_fresh)
  from keeps_applyStrictDynamicRules [OF f2, of p ?d ?vals cspVersion f2] b
  have k3: "keeps n m h2 h3" by simp
  have me: "m \<le> e"
    using f1 by (rule fresh_ge)
  have k4: "keeps n m h3 h4"
    unfolding h4_def
    by (simp add: keeps_refl keeps_objectRemove_after me)
  from k1 k2 k3 k4 have "keeps n m h h4"
    by (blast intro: keeps_trans)
  with e show ?thesis
    by (simp add: res)
qed

lemma keeps_cloneAll_aux:
  assumes "n \<le> length (arrays h)" "m \<le> length (objects h)" "\<forall>c\<in>set cs. fresh n m h c"
  shows "keeps n m h (fst (foldl pushClone (h, cs) this)) \<and>
         (\<forall>c\<in>set (snd (foldl pushClone (h, cs) this)).
            fresh n m (fst (foldl pushClone (h, cs) this)) c)"
  using assms
proof (induction this arbitrary: h cs)
  case Nil
  then show ?case by (simp add: keeps_refl)
next
  case (Cons p this)
  obtain h1 c where c: "clone h p = (h1, c)"
    by (cases "clone h p")
  from clone_fresh [OF Cons.prems(1,2), of p] c
  have k1: "keeps n m h h1" and f1: "fresh n m h1 c"
    by auto
  have step: "pushClone (h, cs) p = (h1, cs @ [c])"
    by (simp add: pushClone_def c)
  have len: "n \<le> length (arrays h1)" "m \<le> length (objects h1)"
    using k1 Cons.prems(1,2) by (auto simp: keeps_def frameOf_def)
  have all: "\<forall>c'\<in>set (cs @ [c]). fresh n m h1 c'"
    using Cons.prems(3) f1 k1 by (auto intro: keeps_fresh)
  from Cons.IH [OF len all] k1 show ?case
    by (auto simp: step intro: keeps_trans)
qed

lemma keeps_effectiveStep:
  assumes "fresh n m h e"
  shows "keeps n m h (fst (effectiveStep directive cspVersion (h, findings) (p, e)))"
proof -
  let ?vals = "valuesOrEmpty (loadCsp h p) directive"
  obtain h2 f2 where a: "applyNonceRules h e directive ?vals cspVersion findings = (h2, f2)"
    by (cases "applyNonceRules h e directive ?vals cspVersion findings")
  obtain h3 f3 where b: "applyStrictDynamicRules h2 p e directive ?vals cspVersion f2 = (h3, f3)"
    by (cases "applyStrictDynamicRules h2 p e directive ?vals cspVersion f2")
  define h4 where "h4 = (if cspVersion < 3
      then objectRemove (objectRemove (objectRemove (objectRemove (objectRemove h3 e REPORT_TO)
             e WORKER_SRC) e MANIFEST_SRC) e TRUSTED_TYPES) e REQUIRE_TRUSTED_TYPES_FOR
      else h3)"
  have res: "effectiveStep directive cspVersion (h, findings) (p, e) = (h4, f3)"
    by (simp add: effectiveStep_def a b h4_def Let_def)
  from keeps_applyNonceRules [OF assms, of directive ?vals cspVersion findings] a
  have k2: "keeps n m h h2" by simp
  have f2: "fresh n m h2 e"
    using k2 assms by (rule keeps_fresh)
  from keeps_applyStrictDynamicRules [OF f2, of p directive ?vals cspVersion f2] b
  have k3: "keeps n m h2 h3" by simp
  have me: "m \<le> e"
    using assms by (rule fresh_ge)
  have k4: "keeps n m h3 h4"
    unfolding h4_def
    by (simp add: keeps_refl keeps_objectRemove_after me)
  from k2 k3 k4 have "keeps n m h h4"
    by (blast intro: keeps_trans)
  then show ?thesis
    by (simp add: res)
qed

lemma keeps_effectiveLoop:
  "\<forall>e\<in>set (map snd pairs). fresh n m h e \<Longrightarrow>
   keeps n m h (fst (effectiveLoop h directive cspVersion findings pairs))"
proof (induction pairs arbitrary: h findings)
  case Nil
  show ?case by (simp add: effectiveLoop_def keeps_refl)
next
  case (Cons pe pairs)
  obtain p e where pe: "pe = (p, e)" by (cases pe)
  obtain h1 f1 where st: "effectiveStep directive cspVersion (h, findings) (p, e) = (h1, f1)"
    by (cases "effectiveStep directive cspVersion (h, findings) (p, e)")
  have fe: "fresh n m h e"
    using Cons.prems pe by simp
  from keeps_effectiveStep [OF fe, of directive cspVersion findings p] st
  have k1: "keeps n m h h1" by simp
  have "\<forall>e\<in>set (map snd pairs). fresh n m h1 e"
    using Cons.prems k1 by (auto intro: keeps_fresh)
  from Cons.IH [OF this, of f1] k1 show ?case
    by (simp add: effectiveLoop_def pe st keeps_trans)
qed

lemma keeps_getEffectiveCsps:
  assumes n: "n \<le> length (arrays h)" and m: "m \<le> length (objects h)"
  shows "keeps n m h (fst (getEffectiveCsps h this cspVersion findings)) \<and>
         (\<forall>e\<in>set (fst (snd (getEffectiveCsps h this cspVersion findings))). m \<le> e)"
proof -
  obtain h1 effectiveCsps where c: "cloneAll h this = (h1, effectiveCsps)"
    by (cases "cloneAll h this")
  let ?d = "getEffectiveDirectiveOfCsps h1 effectiveCsps SCRIPT_SRC"
  obtain h2 f2 where l: "effectiveLoop h1 ?d cspVersion findings (zip this effectiveCsps) = (h2, f2)"
    by (cases "effectiveLoop h1 ?d cspVersion findings (zip this effectiveCsps)")
  have res: "getEffectiveCsps h this cspVersion findings = (h2, effectiveCsps, f2)"
    by (simp add: getEffectiveCsps_def c l)
  from keeps_cloneAll_aux [OF n m, of "[]" this] c
  have k1: "keeps n m h h1" and f1: "\<forall>c\<in>set effectiveCsps. fresh n m h1 c"
    by (simp_all add: cloneAll_def)
  have "\<forall>e\<in>set (map snd (zip this effectiveCsps)). fresh n m h1 e"
    using f1 by (auto dest: set_zip_rightD)
  from keeps_effectiveLoop [OF this, of ?d cspVersion findings] l
  have k2: "keeps n m h1 h2" by simp
  from k1 k2 have "keeps n m h h2"
    by (rule keeps_trans)
  moreover have "\<forall>e\<in>set effectiveCsps. m \<le> e"
    using f1 by (auto dest: fresh_ge)
  ultimately show ?thesis
    by (simp add: res)
qed

lemma frameOf_reads:
  assumes "frameOf (length (arrays h)) (length (objects h)) h h'"
  shows "(\<forall>a<length (arrays h). readArray h' a = readArray h a) \<and>
         (\<forall>p<length (objects h). readObject h' p = readObject h p)"
proof (intro conjI allI impI)
  fix a assume a: "a < length (arrays h)"
  have "arrays h' ! a = take (length (arrays h)) (arrays h') ! a"
    using a by simp
  also have "\<dots> = arrays h ! a"
    using assms by (simp add: frameOf_def)
  finally show "readArray h' a = readArray h a"
    using a assms by (simp add: readArray_def frameOf_def)
next
  fix p assume p: "p < length (objects h)"
  have "objects h' ! p = take (length (objects h)) (objects h') ! p"
    using p by simp
  also have "\<dots> = objects h ! p"
    using assms by (simp add: frameOf_def)
  finally show "readObject h' p = readObject h p"
    using p assms by (simp add: readObject_def frameOf_def)
qed

text \<open>
  Claim C6. For every store, every collection and every version: after
  \<open>getEffectiveCsps\<close> each array and each object that existed before the call (so every
  policy of the input, every directive and every value list) is what it was, and the
  returned policies are objects created by the call. The same holds for
  \<open>getEffectiveCsp\<close> on one policy.
\<close>

theorem effective_csps_leave_input_unchanged:
  "(\<forall>a<length (arrays h).
      readArray (fst (getEffectiveCsps h this cspVersion findings)) a = readArray h a) \<and>
   (\<forall>p<length (objects h).
      readObject (fst (getEffectiveCsps h this cspVersion findings)) p = readObject h p) \<and>
   (\<forall>e\<in>set (fst (snd (getEffectiveCsps h this cspVersion findings))). length (objects h) \<le> e) \<and>
   (\<forall>a<length (arrays h).
      readArray (fst (getEffectiveCsp h parsedCsp cspVersion findings)) a = readArray h a) \<and>
   (\<forall>p<length (objects h).
      readObject (fst (getEffectiveCsp h parsedCsp cspVersion findings)) p = readObject h p) \<and>
   fst (snd (getEffectiveCsp h parsedCsp cspVersion findings)) = length (objects h)"
proof -
  have "frameOf (length (arrays h)) (length (objects h)) h
          (fst (getEffectiveCsps h this cspVersion findings))"
    using keeps_getEffectiveCsps [of "length (arrays h)" h "length (objects h)"]
    by (simp add: keeps_def)
  from frameOf_reads [OF this]
  have a: "\<forall>a<length (arrays h).
      readArray (fst (getEffectiveCsps h this cspVersion findings)) a = readArray h a"
    and b: "\<forall>p<length (objects h).
      readObject (fst (getEffectiveCsps h this cspVersion findings)) p = readObject h p"
    by simp_all
  have c: "\<forall>e\<in>set (fst (snd (getEffectiveCsps h this cspVersion findings))). length (objects h) \<le> e"
    using keeps_getEffectiveCsps [of "length (arrays h)" h "length (objects h)"] by simp
  have "frameOf (length (arrays h)) (length (objects h)) h
          (fst (getEffectiveCsp h parsedCsp cspVersion findings))"
    using keeps_getEffectiveCsp [of "length (arrays h)" h "length (objects h)"]
    by (simp add: keeps_def)
  from frameOf_reads [OF this]
  have d: "\<forall>a<length (arrays h).
      readArray (fst (getEffectiveCsp h parsedCsp cspVersion findings)) a = readArray h a"
    and e: "\<forall>p<length (objects h).
      readObject (fst (getEffectiveCsp h parsedCsp cspVersion findings)) p = readObject h p"
    by simp_all
  have f: "fst (snd (getEffectiveCsp h parsedCsp cspVersion findings)) = length (objects h)"
    using keeps_getEffectiveCsp [of "length (arrays h)" h "length (objects h)"] by simp
  from a b c d e f show ?thesis by (intro conjI)
qed

text \<open>A store with the one policy \<open>script-src 'nonce-r4nd0m' 'unsafe-inline'\<close> at address 0.\<close>

definition smallHeap :: heap where
  "smallHeap = fst (storeCsp emptyHeap (parse_js (js ''script-src 'nonce-r4nd0m' 'unsafe-inline';'')))"

theorem effective_csps_leave_input_unchanged_witness:
  "0 < length (arrays smallHeap) \<and> 0 < length (objects smallHeap) \<and>
   readArray (fst (getEffectiveCsps smallHeap [0] 3 [])) 0 = readArray smallHeap 0 \<and>
   readObject (fst (getEffectiveCsps smallHeap [0] 3 [])) 0 = readObject smallHeap 0 \<and>
   fst (snd (getEffectiveCsps smallHeap [0] 3 [])) = [1] \<and> length (objects smallHeap) \<le> 1 \<and>
   loadCsp (fst (getEffectiveCsps smallHeap [0] 3 [])) 0
     = [(SCRIPT_SRC, [quoted ''nonce-r4nd0m'', Keyword_UNSAFE_INLINE])] \<and>
   loadCsp (fst (getEffectiveCsps smallHeap [0] 3 [])) 1 = [(SCRIPT_SRC, [quoted ''nonce-r4nd0m''])]"
proof -
  have len: "0 < length (arrays smallHeap)" "0 < length (objects smallHeap)"
    by code_simp+
  have eff: "fst (snd (getEffectiveCsps smallHeap [0] 3 [])) = [1]"
    by code_simp
  have before: "loadCsp (fst (getEffectiveCsps smallHeap [0] 3 [])) 0
      = [(SCRIPT_SRC, [quoted ''nonce-r4nd0m'', Keyword_UNSAFE_INLINE])]"
    by code_simp
  have after: "loadCsp (fst (getEffectiveCsps smallHeap [0] 3 [])) 1
      = [(SCRIPT_SRC, [quoted ''nonce-r4nd0m''])]"
    by code_simp
  from effective_csps_leave_input_unchanged [of smallHeap "[0]" 3 "[]" 0] len eff before after
  show ?thesis by simp
qed



section \<open>The effective policy of the example\<close>

definition exampleText :: jsstring where
  "exampleText = js ''default-src 'unsafe-inline' 'strict-dynamic' 'nonce-123' 'sha256-foobar' 'self'; report-to foo.bar; worker-src *; manifest-src *''"

definition exampleHeap :: heap where
  "exampleHeap = fst (storeCsp emptyHeap (parse_js exampleText))"

definition effectiveOf :: "heap \<times> nat \<times> Finding list \<Rightarrow> policy" where
  "effectiveOf r = loadCsp (fst r) (fst (snd r))"

definition findingsOf :: "heap \<times> nat \<times> Finding list \<Rightarrow> Finding list" where
  "findingsOf r = snd (snd r)"

definition typeSeverityValue :: "Finding \<Rightarrow> FindingType \<times> Severity \<times> jsstring option" where
  "typeSeverityValue f = (fType f, fSeverity f, fValue f)"

text \<open>
  Claim C1. The policy parsed from the example text is stored at address 0 of
  \<open>exampleHeap\<close>. At version 1 the effective policy is \<open>default-src\<close> with
  \<open>'unsafe-inline' 'self'\<close> and nothing else (so \<open>report-to\<close>, \<open>worker-src\<close> and
  \<open>manifest-src\<close> are absent), with no finding. At version 2 it is \<open>default-src\<close> with
  \<open>'nonce-123' 'sha256-foobar' 'self'\<close> and nothing else, with one finding of type
  \<open>IGNORED\<close> and severity \<open>NONE\<close> for \<open>'unsafe-inline'\<close>. At version 3 it is \<open>default-src\<close>
  with \<open>'strict-dynamic' 'nonce-123' 'sha256-foobar'\<close>, \<open>report-to\<close> with \<open>foo.bar\<close>,
  \<open>worker-src\<close> and \<open>manifest-src\<close> with \<open>*\<close>, with three findings, all of type \<open>IGNORED\<close>.
\<close>

theorem effective_policy_example:
  "loadCsp exampleHeap 0
     = [(DEFAULT_SRC, [Keyword_UNSAFE_INLINE, Keyword_STRICT_DYNAMIC, quoted ''nonce-123'',
                       quoted ''sha256-foobar'', Keyword_SELF]),
        (REPORT_TO, [js ''foo.bar'']), (WORKER_SRC, [js ''*'']), (MANIFEST_SRC, [js ''*''])] \<and>
   effectiveOf (getEffectiveCsp exampleHeap 0 1 [])
     = [(DEFAULT_SRC, [Keyword_UNSAFE_INLINE, Keyword_SELF])] \<and>
   findingsOf (getEffectiveCsp exampleHeap 0 1 []) = [] \<and>
   effectiveOf (getEffectiveCsp exampleHeap 0 2 [])
     = [(DEFAULT_SRC, [quoted ''nonce-123'', quoted ''sha256-foobar'', Keyword_SELF])] \<and>
   map typeSeverityValue (findingsOf (getEffectiveCsp exampleHeap 0 2 []))
     = [(IGNORED, NONE, Some Keyword_UNSAFE_INLINE)] \<and>
   effectiveOf (getEffectiveCsp exampleHeap 0 3 [])
     = [(DEFAULT_SRC, [Keyword_STRICT_DYNAMIC, quoted ''nonce-123'', quoted ''sha256-foobar'']),
        (REPORT_TO, [js ''foo.bar'']), (WORKER_SRC, [js ''*'']), (MANIFEST_SRC, [js ''*''])] \<and>
   map typeSeverityValue (findingsOf (getEffectiveCsp exampleHeap 0 3 []))
     = [(IGNORED, NONE, Some Keyword_UNSAFE_INLINE), (IGNORED, NONE, Some Keyword_UNSAFE_INLINE),
        (IGNORED, NONE, Some Keyword_SELF)]"
proof (intro conjI)
  show "loadCsp exampleHeap 0
     = [(DEFAULT_SRC, [Keyword_UNSAFE_INLINE, Keyword_STRICT_DYNAMIC, quoted ''nonce-123'',
                       quoted ''sha256-foobar'', Keyword_SELF]),
        (REPORT_TO, [js ''foo.bar'']), (WORKER_SRC, [js ''*'']), (MANIFEST_SRC, [js ''*''])]"
    by code_simp
  show "effectiveOf (getEffectiveCsp exampleHeap 0 1 [])
     = [(DEFAULT_SRC, [Keyword_UNSAFE_INLINE, Keyword_SELF])]"
    by code_simp
  show "findingsOf (getEffectiveCsp exampleHeap 0 1 []) = []"
    by code_simp
  show "effectiveOf (getEffectiveCsp exampleHeap 0 2 [])
     = [(DEFAULT_SRC, [quoted ''nonce-123'', quoted ''sha256-foobar'', Keyword_SELF])]"
    by code_simp
  show "map typeSeverityValue (findingsOf (getEffectiveCsp exampleHeap 0 2 []))
     = [(IGNORED, NONE, Some Keyword_UNSAFE_INLINE)]"
    by code_simp
  show "effectiveOf (getEffectiveCsp exampleHeap 0 3 [])
     = [(DEFAULT_SRC, [Keyword_STRICT_DYNAMIC, quoted ''nonce-123'', quoted ''sha256-foobar'']),
        (REPORT_TO, [js ''foo.bar'']), (WORKER_SRC, [js ''*'']), (MANIFEST_SRC, [js ''*''])]"
    by code_simp
  show "map typeSeverityValue (findingsOf (getEffectiveCsp exampleHeap 0 3 []))
     = [(IGNORED, NONE, Some Keyword_UNSAFE_INLINE), (IGNORED, NONE, Some Keyword_UNSAFE_INLINE),
        (IGNORED, NONE, Some Keyword_SELF)]"
    by code_simp
qed



section \<open>The version ordinal is not validated\<close>

lemma applyNonceRules_version:
  "(2 \<le> v) = (2 \<le> v') \<Longrightarrow>
   applyNonceRules h e directive values v findings = applyNonceRules h e directive values v' findings"
  by (auto simp add: applyNonceRules_def split: option.splits)

lemma applyStrictDynamicRules_version:
  "(3 \<le> v) = (3 \<le> v') \<Longrightarrow>
   applyStrictDynamicRules h p e directive values v findings
     = applyStrictDynamicRules h p e directive values v' findings"
  by (auto simp add: applyStrictDynamicRules_def split: option.splits)

lemma getEffectiveCsp_version:
  assumes "(2 \<le> v) = (2 \<le> v')" "(3 \<le> v) = (3 \<le> v')"
  shows "getEffectiveCsp h p v findings = getEffectiveCsp h p v' findings"
proof -
  have "(v < 3) = (v' < 3)"
    using assms(2) by linarith
  then show ?thesis
    unfolding getEffectiveCsp_def
      applyNonceRules_version [OF assms(1)] applyStrictDynamicRules_version [OF assms(2)]
    by simp
qed

lemma effectiveStep_version:
  assumes "(2 \<le> v) = (2 \<le> v')" "(3 \<le> v) = (3 \<le> v')"
  shows "effectiveStep directive v = effectiveStep directive v'"
proof -
  have "(v < 3) = (v' < 3)"
    using assms(2) by linarith
  then show ?thesis
    unfolding effectiveStep_def
      applyNonceRules_version [OF assms(1)] applyStrictDynamicRules_version [OF assms(2)]
    by simp
qed

lemma getEffectiveCsps_version:
  assumes "(2 \<le> v) = (2 \<le> v')" "(3 \<le> v) = (3 \<le> v')"
  shows "getEffectiveCsps h this v findings = getEffectiveCsps h this v' findings"
  by (simp add: getEffectiveCsps_def effectiveLoop_def effectiveStep_version [OF assms])

text \<open>
  Claim C7, amended. Neither \<open>getEffectiveCsp\<close> nor \<open>getEffectiveCsps\<close> checks the version:
  they have no failing branch and return for every ordinal. An ordinal other than 1, 2
  and 3 gives the result of version 1 when it is below 1 and the result of version 3 when
  it is above 3.
\<close>

theorem invalid_version_not_rejected:
  "cspVersion \<notin> {1, 2, 3} \<Longrightarrow>
   getEffectiveCsp h parsedCsp cspVersion findings
     = getEffectiveCsp h parsedCsp (if cspVersion < 1 then 1 else 3) findings \<and>
   getEffectiveCsps h this cspVersion findings
     = getEffectiveCsps h this (if cspVersion < 1 then 1 else 3) findings"
proof -
  assume "cspVersion \<notin> {1, 2, 3}"
  then have "cspVersion < 1 \<or> 3 < cspVersion"
    by auto
  then have a: "(2 \<le> cspVersion) = (2 \<le> (if cspVersion < 1 then 1 else 3 :: int))"
    and b: "(3 \<le> cspVersion) = (3 \<le> (if cspVersion < 1 then 1 else 3 :: int))"
    by auto
  show ?thesis
    using getEffectiveCsp_version [OF a b] getEffectiveCsps_version [OF a b] by simp
qed

theorem invalid_version_not_rejected_witness:
  "(0::int) \<notin> {1, 2, 3} \<and>
   getEffectiveCsp smallHeap 0 0 [] = getEffectiveCsp smallHeap 0 1 [] \<and>
   getEffectiveCsps smallHeap [0] 0 [] = getEffectiveCsps smallHeap [0] 1 []"
  using invalid_version_not_rejected [of 0 smallHeap 0 "[]" "[0]"] by simp

text \<open>
  The claim as stated fails: with the ordinals 0 and 4 the computation returns an
  effective policy (the one of version 1, without the nonce, and the one of version 3),
  where the claim demands a failure.
\<close>

theorem invalid_version_counterexample:
  "effectiveOf (getEffectiveCsp smallHeap 0 0 []) = [(SCRIPT_SRC, [Keyword_UNSAFE_INLINE])] \<and>
   findingsOf (getEffectiveCsp smallHeap 0 0 []) = [] \<and>
   effectiveOf (getEffectiveCsp smallHeap 0 4 []) = [(SCRIPT_SRC, [quoted ''nonce-r4nd0m''])] \<and>
   map (loadCsp (fst (getEffectiveCsps smallHeap [0] 0 [])))
     (fst (snd (getEffectiveCsps smallHeap [0] 0 []))) = [[(SCRIPT_SRC, [Keyword_UNSAFE_INLINE])]]"
  by code_simp

section \<open>Parsing the string form of a parsed collection\<close>

text \<open>
  The string of a policy separates the words of a directive by one space and ends every
  directive with \<open>'; '\<close>. The parser cuts its input at every \<open>', '\<close> first. A word that
  ends with a comma and is followed by another word of the same directive therefore ends
  the policy when the string is parsed again. \<open>commaSafe\<close> says that a policy has no such word.
\<close>

definition semicolon :: jschar where "semicolon = Latin CHR '';''"
definition comma :: jschar where "comma = Latin CHR '',''"
definition space :: jschar where "space = Latin CHR '' ''"

fun commaSafeWords :: "jsstring list \<Rightarrow> bool" where
  "commaSafeWords [] = True"
| "commaSafeWords [w] = True"
| "commaSafeWords (w # w' # ws) = (last w \<noteq> comma \<and> commaSafeWords (w' # ws))"

definition commaSafe :: "policy \<Rightarrow> bool" where
  "commaSafe pol = list_all (\<lambda>entry. commaSafeWords (fst entry # snd entry)) pol"

subsection \<open>Splitting\<close>

declare split.simps [simp del]

lemma split_empty: "sep \<noteq> [] \<Longrightarrow> split [] sep = [[]]"
  by (subst split.simps) simp

lemma split_at: "sep \<noteq> [] \<Longrightarrow> split (sep @ rest) sep = [] # split rest sep"
  by (subst split.simps) (simp add: startsWith_def)

lemma split_skip:
  "sep \<noteq> [] \<Longrightarrow> \<not> startsWith (c # s) sep \<Longrightarrow> split (c # s) sep = consFirst c (split s sep)"
  by (subst split.simps) simp

lemma split_nonempty: "sep \<noteq> [] \<Longrightarrow> split s sep \<noteq> []"
proof (induction s sep rule: split.induct)
  case (1 s sep)
  show ?case
  proof (cases "s = []")
    case True
    with "1.prems" show ?thesis by (simp add: split_empty)
  next
    case False
    then obtain c s' where s: "s = c # s'" by (cases s) auto
    show ?thesis
    proof (cases "startsWith s sep")
      case True
      with "1.prems" False show ?thesis
        by (subst split.simps) simp
    next
      case False
      with "1.prems" s show ?thesis
        by (simp add: split_skip consFirst_def split: list.splits)
    qed
  qed
qed

lemma split_semicolon_free:
  "semicolon \<notin> set w \<Longrightarrow> split w [semicolon] = [w]"
proof (induction w)
  case Nil
  show ?case by (simp add: split_empty)
next
  case (Cons c w)
  then have "\<not> startsWith (c # w) [semicolon]"
    by (auto simp: startsWith_def)
  with Cons show ?case
    by (simp add: split_skip consFirst_def)
qed

lemma split_semicolon:
  "semicolon \<notin> set w \<Longrightarrow>
   split (w @ semicolon # rest) [semicolon] = w # split rest [semicolon]"
proof (induction w)
  case Nil
  show ?case using split_at [of "[semicolon]" rest] by simp
next
  case (Cons c w)
  then have "\<not> startsWith ((c # w) @ semicolon # rest) [semicolon]"
    by (auto simp: startsWith_def)
  with Cons show ?case
    by (simp add: split_skip consFirst_def)
qed

lemma split_parts_semicolon_free:
  "\<forall>t\<in>set (split s [semicolon]). semicolon \<notin> set t"
proof (induction s)
  case Nil
  show ?case by (simp add: split_empty)
next
  case (Cons c s)
  show ?case
  proof (cases "c = semicolon")
    case True
    have "split (c # s) [semicolon] = [] # split s [semicolon]"
      using split_at [of "[semicolon]" s] True by simp
    with Cons show ?thesis by simp
  next
    case False
    then have "\<not> startsWith (c # s) [semicolon]"
      by (auto simp: startsWith_def)
    then have "split (c # s) [semicolon] = consFirst c (split s [semicolon])"
      by (simp add: split_skip)
    with Cons False show ?thesis
      by (auto simp: consFirst_def split: list.splits)
  qed
qed

fun hasCommaSpace :: "jsstring \<Rightarrow> bool" where
  "hasCommaSpace [] = False"
| "hasCommaSpace [a] = False"
| "hasCommaSpace (a # b # rest) = ((a = comma \<and> b = space) \<or> hasCommaSpace (b # rest))"

lemma split_comma_space_free:
  "\<not> hasCommaSpace w \<Longrightarrow> split w [comma, space] = [w]"
proof (induction w rule: hasCommaSpace.induct)
  case (3 a b rest)
  then have "\<not> startsWith (a # b # rest) [comma, space]"
    by (auto simp: startsWith_def)
  with 3 show ?case
    by (simp add: split_skip consFirst_def)
next
  case 1
  show ?case by (simp add: split_empty)
next
  case (2 v)
  have "\<not> startsWith [v] [comma, space]"
    by (simp add: startsWith_def)
  then show ?case
    by (simp add: split_skip split_empty consFirst_def)
qed

lemma split_comma_space:
  "\<not> hasCommaSpace w \<Longrightarrow>
   split (w @ comma # space # rest) [comma, space] = w # split rest [comma, space]"
proof (induction w rule: hasCommaSpace.induct)
  case (3 a b rest')
  then have "\<not> startsWith ((a # b # rest') @ comma # space # rest) [comma, space]"
    by (auto simp: startsWith_def)
  with 3 show ?case
    by (simp add: split_skip consFirst_def)
next
  case 1
  show ?case using split_at [of "[comma, space]" rest] by simp
next
  case (2 v)
  have ne: "\<not> startsWith ([v] @ comma # space # rest) [comma, space]"
    by (simp add: startsWith_def comma_def space_def)
  have "split (comma # space # rest) [comma, space] = [] # split rest [comma, space]"
    using split_at [of "[comma, space]" rest] by simp
  with ne show ?case
    by (simp add: split_skip consFirst_def)
qed

lemma split_joinStrings:
  "ss \<noteq> [] \<Longrightarrow> \<forall>s\<in>set ss. \<not> hasCommaSpace s \<Longrightarrow>
   split (joinStrings [comma, space] ss) [comma, space] = ss"
proof (induction ss)
  case Nil
  then show ?case by simp
next
  case (Cons s ss)
  show ?case
  proof (cases ss)
    case Nil
    with Cons.prems show ?thesis by (simp add: split_comma_space_free)
  next
    case (Cons t ts)
    with Cons.IH Cons.prems show ?thesis by (simp add: split_comma_space)
  qed
qed

subsection \<open>The order of the properties of an object\<close>

text \<open>
  An object built by assignments to new names only lists the array indices first, in
  ascending order, and the other names after them in the order of their creation. Assigning
  the entries of such an object in their order to a prefix of it appends them.
\<close>

definition keyBefore :: "jsstring \<Rightarrow> jsstring \<Rightarrow> bool" where
  "keyBefore k k' =
     (case arrayIndex k of
        None \<Rightarrow> False
      | Some i \<Rightarrow> (case arrayIndex k' of None \<Rightarrow> True | Some j \<Rightarrow> i < j))"

fun canonical :: "'v jsobject \<Rightarrow> bool" where
  "canonical [] = True"
| "canonical (entry # rest) =
     (fst entry \<notin> set (objectKeys rest) \<and>
      (\<forall>k'\<in>set (objectKeys rest). \<not> keyBefore k' (fst entry)) \<and> canonical rest)"

lemma objectKeys_simps:
  "objectKeys [] = []" "objectKeys (entry # rest) = fst entry # objectKeys rest"
  "objectKeys (xs @ ys) = objectKeys xs @ objectKeys ys"
  by (simp_all add: objectKeys_def)

lemma objectKeys_insertIndexed:
  "set (objectKeys (insertIndexed i k v obj)) = insert k (set (objectKeys obj))"
  by (simp add: objectKeys_def set_insertIndexed)

lemma canonical_snoc:
  "canonical (obj @ [(k, v)]) =
     (canonical obj \<and> k \<notin> set (objectKeys obj) \<and> (\<forall>k'\<in>set (objectKeys obj). \<not> keyBefore k k'))"
  by (induction obj) (auto simp: objectKeys_simps)

lemma canonical_prefix:
  "canonical (pre @ (k, v) # post) \<Longrightarrow>
   k \<notin> set (objectKeys pre) \<and> (\<forall>k'\<in>set (objectKeys pre). \<not> keyBefore k k')"
  by (induction pre) (auto simp: objectKeys_simps)

lemma insertIndexed_append:
  "\<forall>k'\<in>set (objectKeys obj). \<exists>j. arrayIndex k' = Some j \<and> j \<le> i \<Longrightarrow>
   insertIndexed i k v obj = obj @ [(k, v)]"
  by (induction obj) (auto simp: objectKeys_simps)

lemma setProp_append:
  assumes "k \<notin> set (objectKeys obj)" "\<forall>k'\<in>set (objectKeys obj). \<not> keyBefore k k'"
  shows "setProp obj k v = obj @ [(k, v)]"
proof (cases "arrayIndex k")
  case None
  with assms(1) show ?thesis
    by (simp add: setProp_def hasOwnProperty_def)
next
  case (Some i)
  have "\<forall>k'\<in>set (objectKeys obj). \<exists>j. arrayIndex k' = Some j \<and> j \<le> i"
    using assms(2) Some by (auto simp: keyBefore_def split: option.splits)
  then have "insertIndexed i k v obj = obj @ [(k, v)]"
    by (rule insertIndexed_append)
  with assms(1) Some show ?thesis
    by (simp add: setProp_def hasOwnProperty_def)
qed

lemma canonical_insertIndexed:
  "canonical obj \<Longrightarrow> k \<notin> set (objectKeys obj) \<Longrightarrow> arrayIndex k = Some i \<Longrightarrow>
   canonical (insertIndexed i k v obj)"
proof (induction obj)
  case Nil
  show ?case by (simp add: objectKeys_simps)
next
  case (Cons entry obj)
  obtain k' v' where entry: "entry = (k', v')" by (cases entry)
  show ?case
  proof (cases "\<exists>j. arrayIndex k' = Some j \<and> j \<le> i")
    case True
    then have ins: "insertIndexed i k v (entry # obj) = entry # insertIndexed i k v obj"
      by (auto simp: entry)
    have "\<not> keyBefore k k'"
      using True Cons.prems(3) by (auto simp: keyBefore_def)
    with Cons show ?thesis
      unfolding ins by (auto simp: objectKeys_simps objectKeys_insertIndexed entry)
  next
    case False
    then have ins: "insertIndexed i k v (entry # obj) = (k, v) # entry # obj"
      by (auto simp: entry split: option.splits)
    have a: "\<not> keyBefore k' k"
      using False Cons.prems(3) by (auto simp: keyBefore_def split: option.splits)
    have b: "\<not> keyBefore k'' k" if "k'' \<in> set (objectKeys obj)" for k''
    proof -
      from that Cons.prems(1) have "\<not> keyBefore k'' k'"
        by (simp add: entry)
      with False Cons.prems(3) show ?thesis
        by (auto simp: keyBefore_def split: option.splits)
    qed
    from a b Cons.prems show ?thesis
      unfolding ins by (auto simp: objectKeys_simps entry)
  qed
qed

lemma canonical_setProp:
  "canonical obj \<Longrightarrow> \<not> hasOwnProperty obj k \<Longrightarrow> canonical (setProp obj k v)"
  by (auto simp: setProp_def hasOwnProperty_def canonical_snoc canonical_insertIndexed
      keyBefore_def split: option.splits)

lemma set_setProp_new:
  "\<not> hasOwnProperty obj k \<Longrightarrow> set (setProp obj k v) = insert (k, v) (set obj)"
  by (auto simp: setProp_def set_insertIndexed split: option.splits)

subsection \<open>Words\<close>

text \<open>
  What \<open>match(/\S+/g)\<close> finds in a token that has passed the Latin-1 test: non-empty runs of
  Latin-1 code units that are neither whitespace nor a semicolon.
\<close>

definition wordChar :: "jschar \<Rightarrow> bool" where
  "wordChar c = (\<not> isWhitespace c \<and> c \<noteq> semicolon \<and> isLatin c)"

definition isWord :: "jsstring \<Rightarrow> bool" where
  "isWord w = (w \<noteq> [] \<and> list_all wordChar w)"

lemma char_code_eq: "(of_char d :: nat) = n \<Longrightarrow> (b = d) = ((of_char b :: nat) = n)"
  by auto

lemma isWhitespace_Latin_code:
  "isWhitespace (Latin b) = ((of_char b :: nat) \<in> {9, 10, 11, 12, 13, 32, 160})"
proof -
  have "(b = CHR 0x09) = ((of_char b :: nat) = 9)" by (rule char_code_eq) simp
  moreover have "(b = CHR 0x0A) = ((of_char b :: nat) = 10)" by (rule char_code_eq) simp
  moreover have "(b = CHR 0x0B) = ((of_char b :: nat) = 11)" by (rule char_code_eq) simp
  moreover have "(b = CHR 0x0C) = ((of_char b :: nat) = 12)" by (rule char_code_eq) simp
  moreover have "(b = CHR 0x0D) = ((of_char b :: nat) = 13)" by (rule char_code_eq) simp
  moreover have "(b = CHR 0x20) = ((of_char b :: nat) = 32)" by (rule char_code_eq) simp
  moreover have "(b = CHR 0xA0) = ((of_char b :: nat) = 160)" by (rule char_code_eq) simp
  ultimately show ?thesis
    unfolding isWhitespace.simps by (simp only: insert_iff empty_iff) simp
qed

lemma semicolon_code: "Latin b = semicolon \<longleftrightarrow> (of_char b :: nat) = 59"
proof -
  have "(b = CHR '';'') = ((of_char b :: nat) = 59)" by (rule char_code_eq) simp
  then show ?thesis
    by (simp add: semicolon_def)
qed

lemma of_char_lowerLatin:
  assumes "isUpperLatin b"
  shows "(of_char (lowerLatin b) :: nat) = of_char b + 32"
proof -
  have nb: "\<not> digit5 b"
    using assms bit5_not_upper by blast
  obtain b0 b1 b2 b3 b4 b5 b6 b7 where b: "b = Char b0 b1 b2 b3 b4 b5 b6 b7"
    by (cases b)
  from nb assms show ?thesis
    by (simp add: lowerLatin_def b)
qed

lemma wordChar_lowerChar: "wordChar c \<Longrightarrow> wordChar (lowerChar c)"
proof (cases c)
  case (Latin b)
  assume w: "wordChar c"
  show ?thesis
  proof (cases "isUpperLatin b")
    case True
    have "(of_char (lowerLatin b) :: nat) = of_char b + 32"
      using True by (rule of_char_lowerLatin)
    moreover have "(65 \<le> (of_char b :: nat) \<and> (of_char b :: nat) \<le> 90) \<or>
        (192 \<le> (of_char b :: nat) \<and> (of_char b :: nat) \<le> 222)"
      using True by (auto simp: isUpperLatin_def Let_def)
    ultimately show ?thesis
      unfolding Latin wordChar_def lowerChar.simps isWhitespace_Latin_code semicolon_code
      by auto
  next
    case False
    with w Latin show ?thesis
      by (simp add: lowerLatin_def)
  qed
next
  case (Wide n)
  assume "wordChar c"
  with Wide show ?thesis by simp
qed

lemma isWord_toLowerCase: "isWord w \<Longrightarrow> isWord (toLowerCase w)"
  by (auto simp: isWord_def toLowerCase_def list_all_iff wordChar_lowerChar)

lemma isWord_no_whitespace: "isWord w \<Longrightarrow> c \<in> set w \<Longrightarrow> \<not> isWhitespace c"
  by (auto simp: isWord_def list_all_iff wordChar_def)

lemma isWord_ends: "isWord w \<Longrightarrow> \<not> isWhitespace (hd w) \<and> \<not> isWhitespace (last w)"
  using isWord_no_whitespace [of w "hd w"] isWord_no_whitespace [of w "last w"]
  by (auto simp: isWord_def)

lemma trim_word: "isWord w \<Longrightarrow> trim w = w"
  using trim_padded [of w "[]" "[]"] by (simp add: isWord_ends isWord_def)

subsection \<open>Normalized values\<close>

lemma normalize_cases:
  "isWord p \<Longrightarrow> normalizeDirectiveValue p = p \<or> normalizeDirectiveValue p = toLowerCase p"
  by (auto simp: normalizeDirectiveValue_def Let_def trim_word)

lemma isWord_normalize: "isWord p \<Longrightarrow> isWord (normalizeDirectiveValue p)"
  using normalize_cases [of p] by (auto simp: isWord_toLowerCase)

lemma normalize_idem:
  "isWord p \<Longrightarrow> normalizeDirectiveValue (normalizeDirectiveValue p) = normalizeDirectiveValue p"
proof -
  assume p: "isWord p"
  have l: "normalizeDirectiveValue (toLowerCase p) = toLowerCase p"
    using isWord_toLowerCase [OF p]
    by (simp add: normalizeDirectiveValue_def Let_def trim_word toLowerCase_idem)
  show ?thesis
  proof (cases "isKeyword (toLowerCase p) \<or> isUrlScheme p")
    case True
    with p have "normalizeDirectiveValue p = toLowerCase p"
      by (simp add: normalizeDirectiveValue_def Let_def trim_word)
    with l show ?thesis by simp
  next
    case False
    with p have "normalizeDirectiveValue p = p"
      by (simp add: normalizeDirectiveValue_def Let_def trim_word)
    then show ?thesis by simp
  qed
qed

definition storedValue :: "jsstring \<Rightarrow> bool" where
  "storedValue v = (isWord v \<and> normalizeDirectiveValue v = v)"

lemma collectValues_stored:
  "\<forall>p\<in>set parts. isWord p \<Longrightarrow> distinct acc \<Longrightarrow> \<forall>v\<in>set acc. storedValue v \<Longrightarrow>
   distinct (collectValues acc parts) \<and> (\<forall>v\<in>set (collectValues acc parts). storedValue v)"
proof (induction parts arbitrary: acc)
  case Nil
  then show ?case by simp
next
  case (Cons p parts)
  have p: "isWord p" using Cons.prems(1) by simp
  then have ne: "p \<noteq> []" by (simp add: isWord_def)
  have st: "storedValue (normalizeDirectiveValue p)"
    using p by (simp add: storedValue_def isWord_normalize normalize_idem)
  let ?acc = "if normalizeDirectiveValue p \<in> set acc then acc else acc @ [normalizeDirectiveValue p]"
  have "distinct ?acc" "\<forall>v\<in>set ?acc. storedValue v"
    using Cons.prems(2,3) st by auto
  from Cons.IH [OF _ this] Cons.prems(1) ne show ?case
    by (simp add: Let_def)
qed

lemma collectValues_same:
  "distinct (acc @ vs) \<Longrightarrow> \<forall>v\<in>set vs. storedValue v \<Longrightarrow> collectValues acc vs = acc @ vs"
proof (induction vs arbitrary: acc)
  case Nil
  show ?case by simp
next
  case (Cons v vs)
  have v: "v \<noteq> []" "normalizeDirectiveValue v = v"
    using Cons.prems(2) by (simp_all add: storedValue_def isWord_def)
  have "collectValues (acc @ [v]) vs = (acc @ [v]) @ vs"
    using Cons.prems by (intro Cons.IH) auto
  with v Cons.prems(1) show ?case
    by (simp add: Let_def)
qed

subsection \<open>The parts of a token\<close>

lemma set_trim: "set (trim t) \<subseteq> set t"
proof -
  have "set (trim t) = set (dropWhile isWhitespace (rev (dropWhile isWhitespace t)))"
    by (simp add: trim_def)
  also have "\<dots> \<subseteq> set (rev (dropWhile isWhitespace t))"
    by (auto dest: set_dropWhileD)
  also have "\<dots> \<subseteq> set t"
    by (auto dest: set_dropWhileD)
  finally show ?thesis .
qed

lemma matchNonSpace_parts:
  "p \<in> set (matchNonSpace t) \<Longrightarrow>
   p \<noteq> [] \<and> (\<forall>c\<in>set p. \<not> isWhitespace c) \<and> set p \<subseteq> set t"
proof (induction t arbitrary: p rule: matchNonSpace.induct)
  case 1
  then show ?case by simp
next
  case (2 c cs)
  show ?case
  proof (cases "isWhitespace c")
    case True
    with "2.prems" have "p \<in> set (matchNonSpace cs)"
      by simp
    from "2.IH"(1) [OF True this] show ?thesis
      by auto
  next
    case False
    let ?w = "takeWhile (\<lambda>x. \<not> isWhitespace x) cs"
    let ?r = "dropWhile (\<lambda>x. \<not> isWhitespace x) cs"
    from False "2.prems" have "p = c # ?w \<or> p \<in> set (matchNonSpace ?r)"
      by simp
    then show ?thesis
    proof
      assume p: "p = c # ?w"
      have "set ?w \<subseteq> set cs"
        by (auto dest: set_takeWhileD)
      moreover have "\<forall>x\<in>set ?w. \<not> isWhitespace x"
        by (auto dest: set_takeWhileD)
      ultimately show ?thesis
        using False p by auto
    next
      assume "p \<in> set (matchNonSpace ?r)"
      from "2.IH"(2) [OF False this]
      have "p \<noteq> []" "\<forall>c\<in>set p. \<not> isWhitespace c" "set p \<subseteq> set ?r"
        by simp_all
      moreover have "set ?r \<subseteq> set cs"
        by (auto dest: set_dropWhileD)
      ultimately show ?thesis
        by auto
    qed
  qed
qed

lemma token_parts_words:
  assumes "isDirectiveToken tok" "semicolon \<notin> set tok"
  shows "\<forall>p\<in>set (matchNonSpace (trim tok)). isWord p"
proof
  fix p assume p: "p \<in> set (matchNonSpace (trim tok))"
  with matchNonSpace_parts [of p "trim tok"]
  have ne: "p \<noteq> []" and ws: "\<forall>c\<in>set p. \<not> isWhitespace c" and sub: "set p \<subseteq> set (trim tok)"
    by auto
  have "\<forall>c\<in>set p. isLatin c"
    using sub assms(1) by (auto simp: isDirectiveToken_def isLatin1_def list_all_iff)
  moreover have "\<forall>c\<in>set p. c \<noteq> semicolon"
    using sub set_trim [of tok] assms(2) by auto
  ultimately show "isWord p"
    using ne ws by (simp add: isWord_def wordChar_def list_all_iff)
qed

subsection \<open>What the parser returns\<close>

text \<open>
  Every directive of a parsed policy has a lowercase word as its name, which
  \<open>Object.prototype\<close> does not have, and distinct normalized words as its values; and the
  directives are in the order of the properties of an object.
\<close>

definition storedEntry :: "jsstring \<times> jsstring list \<Rightarrow> bool" where
  "storedEntry entry =
     (isWord (fst entry) \<and> toLowerCase (fst entry) = fst entry \<and>
      fst entry \<notin> set objectPrototypeKeys \<and> distinct (snd entry) \<and>
      list_all storedValue (snd entry))"

definition wellParsed :: "policy \<Rightarrow> bool" where
  "wellParsed pol = (canonical pol \<and> list_all storedEntry pol)"

lemma token_storedEntry:
  assumes tok: "isDirectiveToken tok" and semi: "semicolon \<notin> set tok"
    and new: "\<not> inObject (tokenName tok) ret"
  shows "storedEntry (tokenName tok, tokenValues tok)"
proof -
  let ?parts = "matchNonSpace (trim tok)"
  have words: "\<forall>p\<in>set ?parts. isWord p"
    using tok semi by (rule token_parts_words)
  have ne: "?parts \<noteq> []"
    using tok by (simp add: isDirectiveToken_def)
  then have "hd ?parts \<in> set ?parts"
    by simp
  with words have "isWord (hd ?parts)"
    by blast
  then have name: "isWord (tokenName tok)"
    by (simp add: tokenName_def isWord_toLowerCase)
  have lower: "toLowerCase (tokenName tok) = tokenName tok"
    by (simp add: tokenName_def toLowerCase_idem)
  have proto: "tokenName tok \<notin> set objectPrototypeKeys"
    using new by (simp add: inObject_def)
  have "\<forall>p\<in>set (tl ?parts). isWord p"
    using words ne by (auto dest: list.set_sel(2))
  then have "distinct (collectValues [] (tl ?parts)) \<and>
      (\<forall>v\<in>set (collectValues [] (tl ?parts)). storedValue v)"
    by (rule collectValues_stored) simp_all
  then have vals: "distinct (tokenValues tok)" "list_all storedValue (tokenValues tok)"
    by (simp_all add: tokenValues_def list_all_iff)
  from name lower proto vals show ?thesis
    by (simp add: storedEntry_def)
qed

lemma wellParsed_parseTokens:
  "wellParsed ret \<Longrightarrow> \<forall>t\<in>set toks. semicolon \<notin> set t \<Longrightarrow> wellParsed (parseTokens ret toks)"
proof (induction toks arbitrary: ret)
  case Nil
  then show ?case by simp
next
  case (Cons tok toks)
  show ?case
  proof (cases "isDirectiveToken tok \<and> \<not> inObject (tokenName tok) ret")
    case True
    let ?ret = "setProp ret (tokenName tok) (tokenValues tok)"
    have own: "\<not> hasOwnProperty ret (tokenName tok)"
      using True by (simp add: inObject_def)
    have "storedEntry (tokenName tok, tokenValues tok)"
      using True Cons.prems(2) by (intro token_storedEntry [of tok ret]) simp_all
    moreover have "canonical ?ret"
      using Cons.prems(1) own by (simp add: wellParsed_def canonical_setProp)
    moreover have "set ?ret = insert (tokenName tok, tokenValues tok) (set ret)"
      using own by (rule set_setProp_new)
    ultimately have "wellParsed ?ret"
      using Cons.prems(1) by (simp add: wellParsed_def list_all_iff)
    then have "wellParsed (parseTokens ?ret toks)"
      using Cons.prems(2) by (intro Cons.IH) simp_all
    with True show ?thesis
      by (simp add: parseTokens_accept del: parseTokens.simps)
  next
    case False
    have "wellParsed (parseTokens ret toks)"
      using Cons.prems by (intro Cons.IH) simp_all
    with False show ?thesis
      by (simp add: parseTokens_skip del: parseTokens.simps)
  qed
qed

lemma js_semicolon: "js '';'' = [semicolon]"
  by (simp add: js_def semicolon_def)

lemma js_comma_space: "js '', '' = [comma, space]"
  by (simp add: js_def comma_def space_def)

lemma js_space: "js '' '' = [space]"
  by (simp add: js_def space_def)

lemma js_semicolon_space: "js ''; '' = [semicolon, space]"
  by (simp add: js_def semicolon_def space_def)

lemma wellParsed_parseCsp: "wellParsed (parseCsp s)"
proof -
  have "wellParsed []"
    by (simp add: wellParsed_def)
  then show ?thesis
    unfolding parseCsp_def js_semicolon
    using split_parts_semicolon_free [of s] by (rule wellParsed_parseTokens)
qed

subsection \<open>The string of a parsed policy\<close>

fun valuesText :: "jsstring list \<Rightarrow> jsstring" where
  "valuesText [] = []"
| "valuesText (v # vs) = space # v @ valuesText vs"

definition directiveText :: "jsstring \<times> jsstring list \<Rightarrow> jsstring" where
  "directiveText entry = fst entry @ valuesText (snd entry) @ [semicolon, space]"

lemma appendValues_text:
  "\<forall>v\<in>set vs. v \<noteq> [] \<Longrightarrow> appendValues acc vs = acc @ valuesText vs"
  by (induction vs arbitrary: acc) (simp_all add: js_space)

lemma storedEntry_values_nonempty: "storedEntry entry \<Longrightarrow> \<forall>v\<in>set (snd entry). v \<noteq> []"
  by (auto simp: storedEntry_def list_all_iff storedValue_def isWord_def)

lemma foldl_appendDirective:
  "list_all storedEntry pol \<Longrightarrow>
   foldl appendDirective acc pol = acc @ concat (map directiveText pol)"
proof (induction pol arbitrary: acc)
  case Nil
  show ?case by simp
next
  case (Cons entry pol)
  have "appendDirective acc entry = acc @ directiveText entry"
    using Cons.prems storedEntry_values_nonempty [of entry]
    by (simp add: appendDirective_def appendValues_text directiveText_def js_semicolon_space)
  with Cons show ?case
    by simp
qed

lemma convertToString_text:
  "list_all storedEntry pol \<Longrightarrow> convertToString pol = concat (map directiveText pol)"
  by (simp add: convertToString_def foldl_appendDirective)

subsection \<open>Parsing the string of a parsed policy\<close>

lemma space_whitespace: "isWhitespace space"
  by (simp add: space_def)

lemma matchNonSpace_space: "matchNonSpace (space # rest) = matchNonSpace rest"
  by (simp add: space_whitespace)

lemma matchNonSpace_word_space:
  assumes "isWord w"
  shows "matchNonSpace (w @ space # rest) = w # matchNonSpace rest"
proof -
  from assms obtain c cs where w: "w = c # cs"
    by (cases w) (auto simp: isWord_def)
  have nws: "\<forall>x\<in>set (c # cs). \<not> isWhitespace x"
    using assms isWord_no_whitespace [of w] by (auto simp: w)
  then have "takeWhile (\<lambda>x. \<not> isWhitespace x) (cs @ space # rest) = cs"
    by (simp add: takeWhile_append2 space_whitespace)
  moreover have "dropWhile (\<lambda>x. \<not> isWhitespace x) (cs @ space # rest) = space # rest"
    using nws by (simp add: dropWhile_append2 space_whitespace)
  ultimately show ?thesis
    using nws by (simp add: w space_whitespace)
qed

lemma matchNonSpace_words:
  "isWord w \<Longrightarrow> \<forall>v\<in>set vs. isWord v \<Longrightarrow> matchNonSpace (w @ valuesText vs) = w # vs"
proof (induction vs arbitrary: w)
  case Nil
  then show ?case
    using matchNonSpace_word [of w] isWord_no_whitespace [of w]
    by (auto simp: isWord_def)
next
  case (Cons v vs)
  have "matchNonSpace (v @ valuesText vs) = v # vs"
    using Cons.prems(2) by (intro Cons.IH) simp_all
  with Cons.prems(1) show ?case
    by (simp add: matchNonSpace_word_space)
qed

lemma wordChar_set: "isWord w \<Longrightarrow> c \<in> set w \<Longrightarrow> wordChar c"
  by (simp add: isWord_def list_all_iff)

lemma valuesText_set:
  "\<forall>v\<in>set vs. isWord v \<Longrightarrow> c \<in> set (valuesText vs) \<Longrightarrow> c = space \<or> wordChar c"
  by (induction vs) (auto dest: wordChar_set)

lemma space_neq_semicolon: "space \<noteq> semicolon"
  by (simp add: space_def semicolon_def)

lemma words_text_chars:
  assumes "isWord w" "\<forall>v\<in>set vs. isWord v" "c \<in> set (w @ valuesText vs)"
  shows "c \<noteq> semicolon \<and> isLatin c"
proof -
  from assms have "c = space \<or> wordChar c"
    by (auto dest: wordChar_set valuesText_set)
  then show ?thesis
    by (auto simp: wordChar_def space_def semicolon_def)
qed

lemma last_words_text:
  "isWord w \<Longrightarrow> \<forall>v\<in>set vs. isWord v \<Longrightarrow> wordChar (last (w @ valuesText vs))"
proof (induction vs arbitrary: w)
  case Nil
  then show ?case
    using wordChar_set [of w "last w"] by (simp add: isWord_def)
next
  case (Cons v vs)
  have "wordChar (last (v @ valuesText vs))"
    using Cons.prems(2) by (intro Cons.IH) simp_all
  moreover have "v \<noteq> []"
    using Cons.prems(2) by (simp add: isWord_def)
  ultimately show ?case
    by simp
qed

lemma trim_words_text:
  assumes "isWord w" "\<forall>v\<in>set vs. isWord v" "list_all isWhitespace ws"
  shows "trim (ws @ w @ valuesText vs) = w @ valuesText vs"
proof -
  have "w @ valuesText vs \<noteq> []"
    using assms(1) by (simp add: isWord_def)
  moreover have "\<not> isWhitespace (hd (w @ valuesText vs))"
    using assms(1) isWord_ends [of w] by (simp add: isWord_def)
  moreover have "\<not> isWhitespace (last (w @ valuesText vs))"
    using last_words_text [OF assms(1,2)] by (simp add: wordChar_def)
  ultimately have "trim (ws @ (w @ valuesText vs) @ []) = w @ valuesText vs"
    using assms(3) by (intro trim_padded) simp_all
  then show ?thesis
    by simp
qed

lemma trim_whitespace: "list_all isWhitespace ws \<Longrightarrow> trim ws = []"
  by (simp add: trim_def list_all_iff dropWhile_eq_Nil_conv [THEN iffD2])

lemma storedEntry_words:
  "storedEntry (k, vs) \<Longrightarrow> isWord k \<and> (\<forall>v\<in>set vs. isWord v)"
  by (auto simp: storedEntry_def list_all_iff storedValue_def)

lemma directive_token:
  assumes entry: "storedEntry (k, vs)" and ws: "list_all isWhitespace ws"
  shows "isDirectiveToken (ws @ k @ valuesText vs)"
    and "tokenName (ws @ k @ valuesText vs) = k"
    and "tokenValues (ws @ k @ valuesText vs) = vs"
proof -
  let ?tok = "ws @ k @ valuesText vs"
  have words: "isWord k" "\<forall>v\<in>set vs. isWord v"
    using entry storedEntry_words by blast+
  have trim: "trim ?tok = k @ valuesText vs"
    using words ws by (rule trim_words_text)
  have parts: "matchNonSpace (k @ valuesText vs) = k # vs"
    using words by (rule matchNonSpace_words)
  have "\<forall>c\<in>set (k @ valuesText vs). isLatin c"
    using words_text_chars [OF words] by blast
  then have latin: "isLatin1 (k @ valuesText vs)"
    by (simp only: isLatin1_def list_all_iff)
  have ne: "k @ valuesText vs \<noteq> []"
    using words(1) by (simp add: isWord_def)
  show "isDirectiveToken ?tok"
    unfolding isDirectiveToken_def trim parts using ne latin by simp
  show "tokenName ?tok = k"
    unfolding tokenName_def trim parts using entry by (simp add: storedEntry_def)
  have "collectValues [] vs = [] @ vs"
    using entry by (intro collectValues_same) (simp_all add: storedEntry_def list_all_iff)
  then show "tokenValues ?tok = vs"
    unfolding tokenValues_def trim parts by simp
qed

lemma parseTokens_text:
  assumes "canonical (ret @ pol)" "list_all storedEntry pol"
    and "list_all isWhitespace ws" "semicolon \<notin> set ws"
  shows "parseTokens ret (split (ws @ concat (map directiveText pol)) [semicolon]) = ret @ pol"
  using assms
proof (induction pol arbitrary: ret ws)
  case Nil
  have "\<not> (isDirectiveToken ws \<and> \<not> inObject (tokenName ws) ret)"
    using Nil.prems(3) by (simp add: isDirectiveToken_def trim_whitespace)
  then have "parseTokens ret [ws] = parseTokens ret []"
    by (rule parseTokens_skip)
  then have "parseTokens ret [ws] = ret"
    by simp
  then show ?case
    using Nil.prems(4) by (simp add: split_semicolon_free)
next
  case (Cons entry pol)
  obtain k vs where entry: "entry = (k, vs)"
    by (cases entry)
  let ?tok = "ws @ k @ valuesText vs"
  let ?rest = "concat (map directiveText pol)"
  have stored: "storedEntry (k, vs)"
    using Cons.prems(2) by (simp add: entry)
  have words: "isWord k" "\<forall>v\<in>set vs. isWord v"
    using stored storedEntry_words by blast+
  have "semicolon \<notin> set ?tok"
    using words_text_chars [OF words] Cons.prems(4) by auto
  then have "split (?tok @ semicolon # [space] @ ?rest) [semicolon]
      = ?tok # split ([space] @ ?rest) [semicolon]"
    by (rule split_semicolon)
  then have split: "split (ws @ concat (map directiveText (entry # pol))) [semicolon]
      = ?tok # split ([space] @ ?rest) [semicolon]"
    by (simp add: entry directiveText_def)
  have pre: "k \<notin> set (objectKeys ret) \<and> (\<forall>k'\<in>set (objectKeys ret). \<not> keyBefore k k')"
    using Cons.prems(1) unfolding entry by (rule canonical_prefix)
  have "k \<notin> set objectPrototypeKeys"
    using stored by (simp add: storedEntry_def)
  with pre have new: "\<not> inObject (tokenName ?tok) ret"
    using directive_token(2) [OF stored Cons.prems(3)]
    by (simp add: inObject_def hasOwnProperty_def)
  have set: "setProp ret k vs = ret @ [(k, vs)]"
    using pre by (intro setProp_append) simp_all
  have "parseTokens ret (?tok # split ([space] @ ?rest) [semicolon])
      = parseTokens (setProp ret (tokenName ?tok) (tokenValues ?tok))
          (split ([space] @ ?rest) [semicolon])"
    using directive_token(1) [OF stored Cons.prems(3)] new by (rule parseTokens_accept)
  also have "\<dots> = parseTokens (ret @ [(k, vs)]) (split ([space] @ ?rest) [semicolon])"
    using directive_token(2,3) [OF stored Cons.prems(3)] set by simp
  also have "\<dots> = (ret @ [(k, vs)]) @ pol"
    using Cons.prems(1,2)
    by (intro Cons.IH) (simp_all add: entry space_whitespace space_neq_semicolon [symmetric])
  finally show ?case
    unfolding split by (simp add: entry)
qed

lemma parseCsp_convertToString:
  assumes "wellParsed pol"
  shows "parseCsp (convertToString pol) = pol"
proof -
  have "parseTokens [] (split ([] @ concat (map directiveText pol)) [semicolon]) = [] @ pol"
    using assms by (intro parseTokens_text) (simp_all add: wellParsed_def)
  then show ?thesis
    using assms by (simp add: parseCsp_def js_semicolon convertToString_text wellParsed_def)
qed

subsection \<open>The separator of policies inside the string of a policy\<close>

lemma hasCommaSpace_Cons:
  "hasCommaSpace (a # s) = (s \<noteq> [] \<and> ((a = comma \<and> hd s = space) \<or> hasCommaSpace s))"
  by (cases s) simp_all

lemma hasCommaSpace_append:
  "hasCommaSpace (a @ b) =
     (hasCommaSpace a \<or> hasCommaSpace b \<or> (a \<noteq> [] \<and> b \<noteq> [] \<and> last a = comma \<and> hd b = space))"
proof (induction a)
  case Nil
  show ?case by simp
next
  case (Cons x a)
  show ?case
  proof (cases a)
    case Nil
    show ?thesis
      unfolding Nil by (cases b) auto
  next
    case (Cons y a')
    with Cons.IH show ?thesis
      by auto
  qed
qed

lemma no_space_no_comma_space: "space \<notin> set s \<Longrightarrow> \<not> hasCommaSpace s"
  by (induction s rule: hasCommaSpace.induct) auto

lemma word_no_comma_space: "isWord w \<Longrightarrow> \<not> hasCommaSpace w"
  using isWord_no_whitespace [of w space] by (intro no_space_no_comma_space) (auto simp: space_whitespace)

lemma space_neq_comma: "space \<noteq> comma"
  by (simp add: space_def comma_def)

lemma semicolon_neq_comma: "semicolon \<noteq> comma"
  by (simp add: semicolon_def comma_def)

lemma words_text_no_comma_space:
  "isWord w \<Longrightarrow> \<forall>v\<in>set vs. isWord v \<Longrightarrow> commaSafeWords (w # vs) \<Longrightarrow>
   \<not> hasCommaSpace (w @ valuesText vs)"
proof (induction vs arbitrary: w)
  case Nil
  then show ?case by (simp add: word_no_comma_space)
next
  case (Cons v vs)
  have "\<not> hasCommaSpace (v @ valuesText vs)"
    using Cons.prems(2,3) by (intro Cons.IH) simp_all
  then have "\<not> hasCommaSpace (space # v @ valuesText vs)"
    by (simp add: hasCommaSpace_Cons space_neq_comma)
  moreover have "last w \<noteq> comma"
    using Cons.prems(3) by simp
  moreover have "\<not> hasCommaSpace w"
    using Cons.prems(1) by (rule word_no_comma_space)
  ultimately show ?case
    by (simp add: hasCommaSpace_append)
qed

lemma directiveText_no_comma_space:
  assumes "storedEntry (k, vs)" "commaSafeWords (k # vs)"
  shows "\<not> hasCommaSpace (directiveText (k, vs))"
proof -
  have words: "isWord k" "\<forall>v\<in>set vs. isWord v"
    using assms(1) storedEntry_words by blast+
  then have "\<not> hasCommaSpace (k @ valuesText vs)"
    using assms(2) by (rule words_text_no_comma_space)
  moreover have "\<not> hasCommaSpace [semicolon, space]"
    by (simp add: semicolon_neq_comma)
  moreover have "directiveText (k, vs) = (k @ valuesText vs) @ [semicolon, space]"
    by (simp add: directiveText_def)
  ultimately show ?thesis
    by (simp only: hasCommaSpace_append) (simp add: space_neq_semicolon [symmetric])
qed

lemma directiveText_ends: "directiveText entry \<noteq> [] \<and> last (directiveText entry) = space"
  by (simp add: directiveText_def)

lemma policyText_no_comma_space:
  "list_all storedEntry pol \<Longrightarrow> commaSafe pol \<Longrightarrow>
   \<not> hasCommaSpace (concat (map directiveText pol))"
proof (induction pol)
  case Nil
  show ?case by simp
next
  case (Cons entry pol)
  obtain k vs where entry: "entry = (k, vs)"
    by (cases entry)
  have "\<not> hasCommaSpace (directiveText entry)"
    using Cons.prems unfolding entry
    by (intro directiveText_no_comma_space) (simp_all add: commaSafe_def)
  moreover have "\<not> hasCommaSpace (concat (map directiveText pol))"
    using Cons.prems by (intro Cons.IH) (simp_all add: commaSafe_def)
  moreover have "last (directiveText entry) \<noteq> comma"
    by (simp add: directiveText_ends space_neq_comma)
  ultimately show ?case
    by (simp add: hasCommaSpace_append)
qed

lemma convertToString_no_comma_space:
  "wellParsed pol \<Longrightarrow> commaSafe pol \<Longrightarrow> \<not> hasCommaSpace (convertToString pol)"
  by (simp add: wellParsed_def convertToString_text policyText_no_comma_space)

text \<open>
  Claim C5, amended. For every collection that the parser produces, from any text, in which
  no directive name that has values and no directive value other than the last one of its
  directive ends with a comma: parsing the string form of the collection (every directive as
  its name and its values, each value after one space, ended by \<open>'; '\<close>; the policies
  joined by \<open>', '\<close>) gives the same collection again, with the same directives in the same
  order and the same value lists.
\<close>

theorem round_trip_parse:
  assumes "list_all commaSafe (parse s)"
  shows "parse (convertCspsToString (parse s)) = parse s"
proof -
  let ?pols = "parse s"
  have well: "\<forall>pol\<in>set ?pols. wellParsed pol"
    by (auto simp: parse_def wellParsed_parseCsp)
  have ne: "map convertToString ?pols \<noteq> []"
    by (simp add: parse_def js_comma_space split_nonempty)
  have "\<forall>t\<in>set (map convertToString ?pols). \<not> hasCommaSpace t"
    using well assms by (auto simp: list_all_iff convertToString_no_comma_space)
  with ne have "split (joinStrings [comma, space] (map convertToString ?pols)) [comma, space]
      = map convertToString ?pols"
    by (rule split_joinStrings)
  then have pieces: "split (convertCspsToString ?pols) (js '', '') = map convertToString ?pols"
    by (simp only: convertCspsToString_def js_comma_space)
  have "parse (convertCspsToString ?pols)
      = map parseCsp (split (convertCspsToString ?pols) (js '', ''))"
    by (rule parse_def)
  also have "\<dots> = map parseCsp (map convertToString ?pols)"
    by (simp only: pieces)
  also have "\<dots> = ?pols"
    using well by (simp add: map_idI parseCsp_convertToString)
  finally show ?thesis .
qed

text \<open>A text of two policies, with a comma inside a value and a repeated value.\<close>

definition twoPolicies :: jsstring where
  "twoPolicies = js ''Default-Src 'SELF'  https://A.example/x,y ;script-src 'none' 'None', IMG-SRC *''"

theorem round_trip_parse_witness:
  "parse twoPolicies =
     [[(js ''default-src'', [Keyword_SELF, js ''https://A.example/x,y'']),
       (js ''script-src'', [Keyword_NONE])],
      [(js ''img-src'', [js ''*''])]] \<and>
   list_all commaSafe (parse twoPolicies) \<and>
   convertCspsToString (parse twoPolicies) =
     js ''default-src 'self' https://A.example/x,y; script-src 'none'; , img-src *; '' \<and>
   parse (convertCspsToString (parse twoPolicies)) = parse twoPolicies"
proof -
  have parsed: "parse twoPolicies =
     [[(js ''default-src'', [Keyword_SELF, js ''https://A.example/x,y'']),
       (js ''script-src'', [Keyword_NONE])],
      [(js ''img-src'', [js ''*''])]]"
    by code_simp
  have safe: "list_all commaSafe (parse twoPolicies)"
    unfolding parsed by code_simp
  have string: "convertCspsToString (parse twoPolicies) =
     js ''default-src 'self' https://A.example/x,y; script-src 'none'; , img-src *; ''"
    unfolding parsed by code_simp
  have "parse (convertCspsToString (parse twoPolicies)) = parse twoPolicies"
    using safe by (rule round_trip_parse)
  with parsed safe string show ?thesis
    by (intro conjI)
qed

text \<open>
  Claim C5 as stated fails. In the text below a tab follows the comma, so the parser reads
  one policy with one directive (no directive name occurs twice) and the two values
  \<open>a.example,\<close> and \<open>b.example\<close>. Its string has a space after the comma, and parsing it gives
  two policies.
\<close>

definition tabbedPolicy :: jsstring where
  "tabbedPolicy = js ''script-src a.example,'' @ Latin (CHR 0x09) # js ''b.example''"

theorem round_trip_counterexample:
  "parse tabbedPolicy = [[(js ''script-src'', [js ''a.example,'', js ''b.example''])]] \<and>
   convertCspsToString (parse tabbedPolicy) = js ''script-src a.example, b.example; '' \<and>
   parse (convertCspsToString (parse tabbedPolicy)) =
     [[(js ''script-src'', [js ''a.example''])], [(js ''b.example'', [])]] \<and>
   parse (convertCspsToString (parse tabbedPolicy)) \<noteq> parse tabbedPolicy"
proof -
  have parsed: "parse tabbedPolicy = [[(js ''script-src'', [js ''a.example,'', js ''b.example''])]]"
    by code_simp
  have string: "convertCspsToString (parse tabbedPolicy) = js ''script-src a.example, b.example; ''"
    unfolding parsed by code_simp
  have again: "parse (convertCspsToString (parse tabbedPolicy)) =
     [[(js ''script-src'', [js ''a.example''])], [(js ''b.example'', [])]]"
    unfolding string by code_simp
  have "parse (convertCspsToString (parse tabbedPolicy)) \<noteq> parse tabbedPolicy"
    by (subst again, subst parsed) simp
  with parsed string again show ?thesis
    by (intro conjI)
qed

end
